theory Spec2Isabelle
  imports Complex_Main "HOL-Library.AList" "HOL-Library.Multiset" "HOL-Library.Sublist"
begin

section \<open>Shared runtime model\<close>

text \<open>
  Nodes (\<open>DagNode\<close>, \<open>DummyNode\<close>) are objects compared by identity; a node is modelled by
  a natural number standing for that identity.  The outgoing edges of a node
  (\<open>node.ichildren()\<close>) are a function from nodes to the list of children, in iteration
  order.

  Every \<open>throw\<close> of the source is a value of \<open>error\<close>:
  \<^item> \<open>ArgumentsError\<close>: "got arguments to ...(...), but constructor takes no aruguments.";
  \<^item> \<open>WidthError w\<close>: "width must be non-negative: w";
  \<^item> \<open>SizeGuardError\<close>: "size of dag to decrossOpt is too large and will likely crash
    not complete, enable clowntown to run anyway";
  \<^item> \<open>UndefinedError\<close>: the helper \<open>def\<close> applied to \<open>undefined\<close>;
  \<^item> \<open>TypeError\<close>: a property written on \<open>undefined\<close>.
\<close>

type_synonym node = nat

datatype error = ArgumentsError | WidthError real | SizeGuardError | UndefinedError | TypeError

text \<open>
  \<open>def\<close> is imported from \<open>../../utils\<close> (not part of the sources at hand): it returns its
  argument and throws when the argument is \<open>undefined\<close>.
\<close>

definition "def" :: "'a option \<Rightarrow> error + 'a" where
  "def v = (case v of None \<Rightarrow> Inl UndefinedError | Some x \<Rightarrow> Inr x)"

text \<open>
  Operators are closures over an \<open>options\<close> object.  The store lists the options object of
  every operator built so far; an operator is referred to by its index in the store.
\<close>

type_synonym ref = nat

subsection \<open>Arrays and strings of the runtime\<close>

text \<open>Sequencing of computations that may throw, and a loop over an array.\<close>

fun bindE :: "error + 'a \<Rightarrow> ('a \<Rightarrow> error + 'b) \<Rightarrow> error + 'b" where
  "bindE (Inl e) f = Inl e"
| "bindE (Inr x) f = f x"

fun foldE :: "('a \<Rightarrow> 's \<Rightarrow> error + 's) \<Rightarrow> 'a list \<Rightarrow> 's \<Rightarrow> error + 's" where
  "foldE f [] s = Inr s"
| "foldE f (x # xs) s = bindE (f x s) (foldE f xs)"

fun sort_insert :: "('a \<Rightarrow> 'a \<Rightarrow> error + real) \<Rightarrow> 'a \<Rightarrow> 'a list \<Rightarrow> error + 'a list" where
  "sort_insert cmp x [] = Inr [x]"
| "sort_insert cmp x (t # rs) =
     bindE (cmp t x) (\<lambda>order.
       if 0 < order then bindE (sort_insert cmp x rs) (\<lambda>rs'. Inr (t # rs'))
       else Inr (x # t # rs))"

definition array_sort :: "('a \<Rightarrow> 'a \<Rightarrow> error + real) \<Rightarrow> 'a list \<Rightarrow> error + 'a list" where
  "array_sort cmp xs = bindE (foldE (sort_insert cmp) xs []) (\<lambda>acc. Inr (rev acc))"

definition digit :: "nat \<Rightarrow> char" where
  "digit d = ''0123456789'' ! d"

fun number_toString :: "nat \<Rightarrow> string" where
  "number_toString n =
     (if n < 10 then [digit n] else number_toString (n div 10) @ [digit (n mod 10)])"

declare number_toString.simps [simp del]

fun localeCompare :: "string \<Rightarrow> string \<Rightarrow> int" where
  "localeCompare [] [] = 0"
| "localeCompare [] (y # ys) = - 1"
| "localeCompare (x # xs) [] = 1"
| "localeCompare (x # xs) (y # ys) =
     (if (of_char x :: nat) < of_char y then - 1
      else if (of_char y :: nat) < of_char x then 1
      else localeCompare xs ys)"

fun join :: "string \<Rightarrow> string list \<Rightarrow> string" where
  "join sep [] = []"
| "join sep [s] = s"
| "join sep (s # t # rest) = s @ sep @ join sep (t # rest)"

section \<open>Layering: the Coffman-Graham operator\<close>

subsection \<open>Configuration\<close>

text \<open>
  \<open>width\<close> is a number: the setter accepts every number that is not less than 0, whether
  it is an integer or not.
\<close>

record cg_options =
  width :: real

definition cg_buildOperator :: "cg_options list \<Rightarrow> cg_options \<Rightarrow> cg_options list \<times> ref" where
  "cg_buildOperator h options = (h @ [options], length h)"

text \<open>\<open>width()\<close> without argument: the getter.\<close>

definition width_get :: "cg_options list \<Rightarrow> ref \<Rightarrow> real" where
  "width_get h r = width (h ! r)"

text \<open>\<open>width(maxWidth)\<close>: the setter.\<close>

definition width_set :: "cg_options list \<Rightarrow> ref \<Rightarrow> real \<Rightarrow> error + cg_options list \<times> ref" where
  "width_set h r maxWidth =
     (if maxWidth < 0 then Inl (WidthError maxWidth)
      else Inr (cg_buildOperator h ((h ! r)\<lparr>width := maxWidth\<rparr>)))"

definition coffmanGraham :: "cg_options list \<Rightarrow> 'a list \<Rightarrow> error + cg_options list \<times> ref" where
  "coffmanGraham h args =
     (if length args \<noteq> 0 then Inl ArgumentsError
      else Inr (cg_buildOperator h \<lparr>width = 0\<rparr>))"

text \<open>
  \<open>const maxWidth = options.width || Math.floor(Math.sqrt(dag.size() + 0.5))\<close>, over the
  reals (the rounding of the floating-point square root is not modelled).
\<close>

definition cg_maxWidth :: "cg_options \<Rightarrow> nat \<Rightarrow> real" where
  "cg_maxWidth options dag_size =
     (if width options \<noteq> 0 then width options
      else real_of_int \<lfloor>sqrt (real dag_size + 1 / 2)\<rfloor>)"

text \<open>
  For evaluation: over the naturals the width computed for \<open>options.width = 0\<close> is the
  integer square root of the number of nodes, found by counting up.
\<close>

function floor_sqrt_from :: "nat \<Rightarrow> nat \<Rightarrow> nat" where
  "floor_sqrt_from k n = (if (k + 1) * (k + 1) \<le> n then floor_sqrt_from (k + 1) n else k)"
  by pat_completeness auto
termination
proof (relation "measure (\<lambda>(k, n). n - k)")
  show "wf (measure (\<lambda>(k, n). n - k))" by simp
next
  fix k n :: nat
  assume a: "(k + 1) * (k + 1) \<le> n"
  have "k + 1 \<le> (k + 1) * (k + 1)" by simp
  with a have "k < n" by linarith
  then show "((k + 1, n), (k, n)) \<in> measure (\<lambda>(k, n). n - k)" by simp
qed

declare floor_sqrt_from.simps [simp del]

lemma floor_sqrt_from_bounds:
  "k * k \<le> n \<Longrightarrow> floor_sqrt_from k n * floor_sqrt_from k n \<le> n \<and>
     n < (floor_sqrt_from k n + 1) * (floor_sqrt_from k n + 1)"
proof (induction k n rule: floor_sqrt_from.induct)
  case (1 k n)
  show ?case
  proof (cases "(k + 1) * (k + 1) \<le> n")
    case True
    with "1.IH" show ?thesis by (subst (1 2 3 4) floor_sqrt_from.simps) simp
  next
    case False
    with "1.prems" show ?thesis by (subst (1 2 3 4) floor_sqrt_from.simps) simp
  qed
qed

lemma floor_sqrt_half: "\<lfloor>sqrt (real n + 1 / 2)\<rfloor> = int (floor_sqrt_from 0 n)"
proof -
  define r where "r = floor_sqrt_from 0 n"
  have b: "r * r \<le> n" "n < (r + 1) * (r + 1)"
    using floor_sqrt_from_bounds [of 0 n] by (simp_all add: r_def)
  have lo: "real r \<le> sqrt (real n + 1 / 2)"
  proof (rule real_le_rsqrt)
    have "real (r * r) \<le> real n" using b(1) by (simp only: of_nat_le_iff)
    then show "(real r)\<^sup>2 \<le> real n + 1 / 2" by (simp add: power2_eq_square)
  qed
  have hi: "sqrt (real n + 1 / 2) < real r + 1"
  proof (rule real_less_lsqrt)
    show "0 \<le> real r + 1" by simp
    have "n + 1 \<le> (r + 1) * (r + 1)" using b(2) by simp
    then have "real (n + 1) \<le> real ((r + 1) * (r + 1))" by (simp only: of_nat_le_iff)
    then show "real n + 1 / 2 < (real r + 1)\<^sup>2" by (simp add: power2_eq_square algebra_simps)
  qed
  from lo hi have "\<lfloor>sqrt (real n + 1 / 2)\<rfloor> = int r"
    by (simp add: floor_eq_iff)
  then show ?thesis by (simp add: r_def)
qed

lemma cg_maxWidth_code [code]:
  "cg_maxWidth options n = (if width options \<noteq> 0 then width options else real (floor_sqrt_from 0 n))"
  by (simp add: cg_maxWidth_def floor_sqrt_half)

subsection \<open>The comparator of the priority queue\<close>

record Data =
  before :: "nat list"
  parents :: "node list"

text \<open>
  The loop \<open>for (const [i, leftb] of leftBefore.entries())\<close>, started at index \<open>i\<close> with
  the entries of \<open>leftBefore\<close> that are left; \<open>rightBefore[i]\<close> is \<open>undefined\<close> exactly
  when \<open>i\<close> is out of range.
\<close>

fun comp_loop :: "nat \<Rightarrow> nat list \<Rightarrow> nat list \<Rightarrow> bool" where
  "comp_loop i [] rightBefore = True"
| "comp_loop i (leftb # rest) rightBefore =
     (if length rightBefore \<le> i then False
      else if leftb < rightBefore ! i then True
      else if rightBefore ! i < leftb then False
      else comp_loop (Suc i) rest rightBefore)"

definition cg_comp :: "(node \<rightharpoonup> Data) \<Rightarrow> node \<Rightarrow> node \<Rightarrow> error + bool" where
  "cg_comp data left right =
     (case def (data left) of
        Inl e \<Rightarrow> Inl e
      | Inr l \<Rightarrow>
          (case def (data right) of
             Inl e \<Rightarrow> Inl e
           | Inr r \<Rightarrow> Inr (comp_loop 0 (before l) (before r))))"

subsection \<open>The DAG and the priority queue\<close>

text \<open>
  The graph abstraction (\<open>../../dag/node\<close>) is a collaborator: a DAG gives its nodes
  (\<open>dag.idescendants()\<close>, also the order of \<open>for (const node of dag)\<close>), its roots
  (\<open>dag.iroots()\<close>) and the children of each node (\<open>node.ichildren()\<close>); \<open>dag.size()\<close> is
  the number of nodes.
\<close>

record Dag =
  idescendants :: "node list"
  iroots :: "node list"
  ichildren :: "node \<Rightarrow> node list"

text \<open>
  Modelled from the spec: the graph abstraction "supports iterating all nodes and all
  parentless nodes of a DAG".  A well-formed DAG lists every node once, its edges stay
  inside the node list, its roots are exactly the parentless nodes, and it has no cycle
  (some ranking of the nodes increases along every edge).
\<close>

definition wf_dag :: "Dag \<Rightarrow> bool" where
  "wf_dag dag \<longleftrightarrow>
     distinct (idescendants dag) \<and>
     (\<forall>n \<in> set (idescendants dag). set (ichildren dag n) \<subseteq> set (idescendants dag)) \<and>
     distinct (iroots dag) \<and>
     set (iroots dag) =
       {n \<in> set (idescendants dag). \<forall>p \<in> set (idescendants dag). n \<notin> set (ichildren dag p)} \<and>
     (\<exists>rank :: node \<Rightarrow> nat.
        \<forall>n \<in> set (idescendants dag). \<forall>c \<in> set (ichildren dag n). rank n < rank c)"

text \<open>
  \<open>FastPriorityQueue\<close> is a library: the queue is a parameter, a value of some type \<open>'q\<close>
  with the three operations the code uses (the constructor, \<open>add\<close> and \<open>poll\<close>, each given
  the comparator the queue was built with).  \<open>poll\<close> returns \<open>undefined\<close> on an empty queue.
\<close>

record 'q pq_ops =
  pq_new :: 'q
  pq_add :: "(node \<Rightarrow> node \<Rightarrow> error + bool) \<Rightarrow> node \<Rightarrow> 'q \<Rightarrow> 'q"
  pq_poll :: "(node \<Rightarrow> node \<Rightarrow> error + bool) \<Rightarrow> 'q \<Rightarrow> (node \<times> 'q) option"

text \<open>
  Modelled from the spec: "repeatedly dequeue the minimal node".  What the layering relies
  on is only that the queue hands back what was put in: \<open>poll\<close> removes and returns one of
  the nodes the queue holds, and answers \<open>undefined\<close> exactly when it holds none.  Which
  node counts as minimal is left to the queue.
\<close>

definition pq_contract :: "'q pq_ops \<Rightarrow> ('q \<Rightarrow> node multiset) \<Rightarrow> bool" where
  "pq_contract ops contents \<longleftrightarrow>
     contents (pq_new ops) = {#} \<and>
     (\<forall>cmp x q. contents (pq_add ops cmp x q) = add_mset x (contents q)) \<and>
     (\<forall>cmp q. pq_poll ops cmp q = None \<longleftrightarrow> contents q = {#}) \<and>
     (\<forall>cmp q x q'. pq_poll ops cmp q = Some (x, q') \<longrightarrow> contents q = add_mset x (contents q'))"

subsection \<open>coffmanGrahamCall\<close>

text \<open>
  The state of the call: the queue, the map \<open>data\<close>, the \<open>layer\<close> attribute of the nodes, and
  the counters \<open>i\<close>, \<open>layer\<close> and \<open>width\<close>.
\<close>

record 'q cg_state =
  st_queue :: 'q
  st_data :: "node \<rightharpoonup> Data"
  node_layer :: "node \<rightharpoonup> nat"
  st_i :: nat
  st_layer :: nat
  st_width :: int

text \<open>\<open>def(data.get(child)).parents.push(node)\<close>\<close>

definition push_parent :: "node \<Rightarrow> node \<Rightarrow> (node \<rightharpoonup> Data) \<Rightarrow> error + (node \<rightharpoonup> Data)" where
  "push_parent node child data =
     bindE (def (data child)) (\<lambda>d. Inr (data(child \<mapsto> d\<lparr>parents := parents d @ [node]\<rparr>)))"

definition init_data :: "Dag \<Rightarrow> error + (node \<rightharpoonup> Data)" where
  "init_data dag =
     foldE (\<lambda>node. foldE (push_parent node) (ichildren dag node)) (idescendants dag)
       (map_of (map (\<lambda>node. (node, \<lparr>before = [], parents = []\<rparr>)) (idescendants dag)))"

text \<open>\<open>parents.every((p) => def(p.layer) < layer)\<close>\<close>

fun every_below :: "(node \<rightharpoonup> nat) \<Rightarrow> nat \<Rightarrow> node list \<Rightarrow> error + bool" where
  "every_below layers layer [] = Inr True"
| "every_below layers layer (p # ps) =
     bindE (def (layers p)) (\<lambda>l. if l < layer then every_below layers layer ps else Inr False)"

text \<open>The \<open>if\<close> of the loop body: the node goes to the current layer or opens the next one.\<close>

definition cg_place :: "real \<Rightarrow> node \<Rightarrow> 'q cg_state \<Rightarrow> error + 'q cg_state" where
  "cg_place maxWidth node st =
     bindE
       (if real_of_int (st_width st) < maxWidth
        then bindE (def (st_data st node))
               (\<lambda>d. every_below (node_layer st) (st_layer st) (parents d))
        else Inr False)
       (\<lambda>fits.
          if fits
          then Inr (st\<lparr>node_layer := (node_layer st)(node \<mapsto> st_layer st),
                      st_width := st_width st + 1\<rparr>)
          else Inr (st\<lparr>node_layer := (node_layer st)(node \<mapsto> st_layer st + 1),
                      st_layer := st_layer st + 1,
                      st_width := 1\<rparr>))"

text \<open>The body of \<open>for (const child of node.ichildren())\<close>.\<close>

definition cg_visit :: "'q pq_ops \<Rightarrow> node \<Rightarrow> 'q cg_state \<Rightarrow> error + 'q cg_state" where
  "cg_visit ops child st =
     bindE (def (st_data st child)) (\<lambda>d.
       let d1 = d\<lparr>before := before d @ [st_i st]\<rparr> in
       if length (before d1) = length (parents d1)
       then
         bindE (array_sort (\<lambda>a b. Inr (real b - real a)) (before d1)) (\<lambda>before'.
           let data' = (st_data st)(child \<mapsto> d1\<lparr>before := before'\<rparr>) in
           Inr (st\<lparr>st_data := data',
                   st_queue := pq_add ops (cg_comp data') child (st_queue st)\<rparr>))
       else Inr (st\<lparr>st_data := (st_data st)(child \<mapsto> d1)\<rparr>))"

definition cg_step ::
  "'q pq_ops \<Rightarrow> (node \<Rightarrow> node list) \<Rightarrow> real \<Rightarrow> node \<Rightarrow> 'q cg_state \<Rightarrow> error + 'q cg_state" where
  "cg_step ops children maxWidth node st =
     bindE (cg_place maxWidth node st) (\<lambda>st.
     bindE (foldE (cg_visit ops) (children node) st) (\<lambda>st.
     Inr (st\<lparr>st_i := st_i st + 1\<rparr>)))"

text \<open>
  \<open>while ((node = queue.poll())) { ... }\<close>.  Nothing in the code bounds the number of
  rounds, so the loop is a partial function: \<open>None\<close> stands for a loop that does not end.
\<close>

partial_function (option) cg_loop ::
  "'q pq_ops \<Rightarrow> (node \<Rightarrow> node list) \<Rightarrow> real \<Rightarrow> 'q cg_state \<Rightarrow> (error + 'q cg_state) option" where
  "cg_loop ops children maxWidth st =
     (case pq_poll ops (cg_comp (st_data st)) (st_queue st) of
        None \<Rightarrow> Some (Inr st)
      | Some (node, q) \<Rightarrow>
          (case cg_step ops children maxWidth node (st\<lparr>st_queue := q\<rparr>) of
             Inl e \<Rightarrow> Some (Inl e)
           | Inr st' \<Rightarrow> cg_loop ops children maxWidth st'))"

text \<open>
  The call, given the value the \<open>layer\<close> attributes have before it.  The result is the
  final state, whose \<open>node_layer\<close> is the layering written to the nodes.
\<close>

definition coffmanGrahamCall ::
  "'q pq_ops \<Rightarrow> cg_options \<Rightarrow> Dag \<Rightarrow> (node \<rightharpoonup> nat) \<Rightarrow> (error + 'q cg_state) option" where
  "coffmanGrahamCall ops options dag layers0 =
     (let maxWidth = cg_maxWidth options (length (idescendants dag)) in
      case init_data dag of
        Inl e \<Rightarrow> Some (Inl e)
      | Inr data \<Rightarrow>
          cg_loop ops (ichildren dag) maxWidth
            \<lparr>st_queue = fold (pq_add ops (cg_comp data)) (iroots dag) (pq_new ops),
             st_data = data, node_layer = layers0, st_i = 0, st_layer = 0, st_width = 0\<rparr>)"

text \<open>
  A queue for running examples: the nodes in insertion order; \<open>poll\<close> takes the first node
  that the comparator puts before every other node of the queue, or the first node when
  there is none.
\<close>

definition list_poll :: "(node \<Rightarrow> node \<Rightarrow> error + bool) \<Rightarrow> node list \<Rightarrow> (node \<times> node list) option" where
  "list_poll cmp q =
     (if q = [] then None
      else
        let least = filter (\<lambda>a. \<forall>b \<in> set q. cmp a b = Inr True) q;
            a = (if least = [] then hd q else hd least)
        in Some (a, remove1 a q))"

definition list_queue :: "node list pq_ops" where
  "list_queue = \<lparr>pq_new = [], pq_add = (\<lambda>cmp x q. q @ [x]), pq_poll = list_poll\<rparr>"

declare cg_loop.simps [code]

section \<open>Decrossing: the optimal operator\<close>

subsection \<open>Configuration\<close>

record opt_options =
  clowntown :: bool

definition opt_buildOperator :: "opt_options list \<Rightarrow> opt_options \<Rightarrow> opt_options list \<times> ref" where
  "opt_buildOperator h options = (h @ [options], length h)"

definition clowntown_get :: "opt_options list \<Rightarrow> ref \<Rightarrow> bool" where
  "clowntown_get h r = clowntown (h ! r)"

definition clowntown_set :: "opt_options list \<Rightarrow> ref \<Rightarrow> bool \<Rightarrow> opt_options list \<times> ref" where
  "clowntown_set h r val = opt_buildOperator h ((h ! r)\<lparr>clowntown := val\<rparr>)"

definition opt :: "opt_options list \<Rightarrow> 'a list \<Rightarrow> error + opt_options list \<times> ref" where
  "opt h args =
     (if length args \<noteq> 0 then Inl ArgumentsError
      else Inr (opt_buildOperator h \<lparr>clowntown = False\<rparr>))"


subsection \<open>The model handed to the solver\<close>

record bounds =
  min_bound :: "real option"
  max_bound :: "real option"

record Model =
  optimize :: string
  opType :: string
  constraints :: "(string \<times> bounds) list"
  variables :: "(string \<times> (string \<times> real) list) list"
  ints :: "(string \<times> real) list"

definition set_coef :: "string \<Rightarrow> string \<Rightarrow> real \<Rightarrow> Model \<Rightarrow> error + Model" where
  "set_coef v attr k model =
     (case map_of (variables model) v of
        None \<Rightarrow> Inl TypeError
      | Some row \<Rightarrow>
          Inr (model\<lparr>variables := AList.update v (AList.update attr k row) (variables model)\<rparr>))"

subsection \<open>Identifiers, keys and the comparator\<close>

definition mk_id :: "nat \<Rightarrow> nat \<Rightarrow> string" where
  "mk_id i j = ''('' @ number_toString i @ '' '' @ number_toString j @ '')''"

fun ids_layer :: "nat \<Rightarrow> nat \<Rightarrow> node list \<Rightarrow> (node \<rightharpoonup> string) \<Rightarrow> (node \<rightharpoonup> string)" where
  "ids_layer i j [] ids = ids"
| "ids_layer i j (node # rest) ids = ids_layer i (Suc j) rest (ids(node \<mapsto> mk_id i j))"

fun ids_layers :: "nat \<Rightarrow> node list list \<Rightarrow> (node \<rightharpoonup> string) \<Rightarrow> (node \<rightharpoonup> string)" where
  "ids_layers i [] ids = ids"
| "ids_layers i (layer # rest) ids = ids_layers (Suc i) rest (ids_layer i 0 layer ids)"

fun map_def :: "(node \<rightharpoonup> string) \<Rightarrow> node list \<Rightarrow> error + string list" where
  "map_def ids [] = Inr []"
| "map_def ids (n # ns) =
     bindE (def (ids n)) (\<lambda>s. bindE (map_def ids ns) (\<lambda>ss. Inr (s # ss)))"

definition key :: "(node \<rightharpoonup> string) \<Rightarrow> node list \<Rightarrow> error + string" where
  "key ids nodes =
     bindE (map_def ids nodes) (\<lambda>ss.
     bindE (array_sort (\<lambda>a b. Inr (real_of_int (localeCompare a b))) ss) (\<lambda>strs.
     Inr (join '' => '' strs)))"

definition opt_comp :: "(node \<rightharpoonup> string) \<Rightarrow> node \<Rightarrow> node \<Rightarrow> error + int" where
  "opt_comp ids n1 n2 =
     bindE (def (ids n1)) (\<lambda>s1. bindE (def (ids n2)) (\<lambda>s2. Inr (localeCompare s1 s2)))"

subsection \<open>perms: pair variables and transitivity constraints of one layer\<close>

definition add_pair :: "(node \<rightharpoonup> string) \<Rightarrow> node \<Rightarrow> node \<Rightarrow> Model \<Rightarrow> error + Model" where
  "add_pair ids n1 n2 model =
     bindE (key ids [n1, n2]) (\<lambda>pair.
       Inr (model
         \<lparr>constraints :=
            AList.update pair \<lparr>min_bound = None, max_bound = Some 1\<rparr> (constraints model),
          variables := AList.update pair [(''opt'', 0), (pair, 1)] (variables model),
          ints := AList.update pair 1 (ints model)\<rparr>))"

definition add_triangle ::
  "(node \<rightharpoonup> string) \<Rightarrow> node \<Rightarrow> node \<Rightarrow> node \<Rightarrow> Model \<Rightarrow> error + Model" where
  "add_triangle ids n1 n2 n3 model =
     bindE (key ids [n1, n2]) (\<lambda>pair1.
     bindE (key ids [n1, n3]) (\<lambda>pair2.
     bindE (key ids [n2, n3]) (\<lambda>pair3.
     bindE (key ids [n1, n2, n3]) (\<lambda>triangle.
       let triangleUp = triangle @ ''+'';
           triangleDown = triangle @ ''-''
       in
       bindE (Inr (model\<lparr>constraints :=
         AList.update triangleUp \<lparr>min_bound = None, max_bound = Some 1\<rparr> (constraints model)\<rparr>))
         (\<lambda>model.
       bindE (set_coef pair1 triangleUp 1 model) (\<lambda>model.
       bindE (set_coef pair2 triangleUp (- 1) model) (\<lambda>model.
       bindE (set_coef pair3 triangleUp 1 model) (\<lambda>model.
       bindE (Inr (model\<lparr>constraints :=
         AList.update triangleDown \<lparr>min_bound = Some 0, max_bound = None\<rparr> (constraints model)\<rparr>))
         (\<lambda>model.
       bindE (set_coef pair1 triangleDown 1 model) (\<lambda>model.
       bindE (set_coef pair2 triangleDown (- 1) model) (\<lambda>model.
       set_coef pair3 triangleDown 1 model)))))))))))"

text \<open>The two loop nests of \<open>perms\<close>, over the layer as sorted.\<close>

definition perms_pairs :: "(node \<rightharpoonup> string) \<Rightarrow> node list \<Rightarrow> Model \<Rightarrow> error + Model" where
  "perms_pairs ids layer =
     foldE (\<lambda>(i, n1). foldE (\<lambda>n2. add_pair ids n1 n2) (drop (i + 1) layer))
       (enumerate 0 (take (length layer - 1) layer))"

definition perms_triangles :: "(node \<rightharpoonup> string) \<Rightarrow> node list \<Rightarrow> Model \<Rightarrow> error + Model" where
  "perms_triangles ids layer =
     foldE (\<lambda>(i, n1).
         foldE (\<lambda>(j, n2). foldE (\<lambda>n3. add_triangle ids n1 n2 n3) (drop (i + j + 2) layer))
           (enumerate 0 (drop (i + 1) layer)))
       (enumerate 0 (take (length layer - 1) layer))"

text \<open>
  \<open>perms\<close> sorts the layer in place before it adds to the model: the second component is
  the layer as the call leaves it.
\<close>

definition perms :: "(node \<rightharpoonup> string) \<Rightarrow> Model \<Rightarrow> node list \<Rightarrow> (error + Model) \<times> node list" where
  "perms ids model layer =
     (case array_sort (\<lambda>n1 n2. map_sum id real_of_int (opt_comp ids n1 n2)) layer of
        Inl e \<Rightarrow> (Inl e, layer)
      | Inr layer' \<Rightarrow>
          (bindE (perms_pairs ids layer' model) (perms_triangles ids layer'), layer'))"

subsection \<open>cross: slack variables of one pair of adjacent layers\<close>

definition add_slack ::
  "(node \<rightharpoonup> string) \<Rightarrow> string \<Rightarrow> node \<Rightarrow> node \<Rightarrow> Model \<Rightarrow> error + Model" where
  "add_slack ids pairp c1 c2 model =
     (if c1 = c2 then Inr model
      else
        bindE (key ids [c1, c2]) (\<lambda>pairc.
          let slack = ''slack ('' @ pairp @ '') ('' @ pairc @ '')'';
              slackUp = slack @ '' +'';
              slackDown = slack @ '' -''
          in
          bindE (Inr (model\<lparr>variables :=
            AList.update slack [(''opt'', 1), (slackUp, 1), (slackDown, 1)] (variables model)\<rparr>))
            (\<lambda>model.
          bindE (opt_comp ids c1 c2) (\<lambda>sign.
            let flip = max sign 0 in
            bindE (Inr (model\<lparr>constraints :=
              AList.update slackUp \<lparr>min_bound = Some (real_of_int flip), max_bound = None\<rparr>
                (constraints model)\<rparr>))
              (\<lambda>model.
            bindE (set_coef pairp slackUp 1 model) (\<lambda>model.
            bindE (set_coef pairc slackUp (real_of_int sign) model) (\<lambda>model.
            bindE (Inr (model\<lparr>constraints :=
              AList.update slackDown \<lparr>min_bound = Some (real_of_int (- flip)), max_bound = None\<rparr>
                (constraints model)\<rparr>))
              (\<lambda>model.
            bindE (set_coef pairp slackDown (- 1) model) (\<lambda>model.
            set_coef pairc slackDown (real_of_int (- sign)) model)))))))))"

definition cross ::
  "(node \<rightharpoonup> string) \<Rightarrow> (node \<Rightarrow> node list) \<Rightarrow> node list \<Rightarrow> Model \<Rightarrow> error + Model" where
  "cross ids children layer =
     foldE (\<lambda>(i, p1).
         foldE (\<lambda>p2 model.
             bindE (key ids [p1, p2]) (\<lambda>pairp.
               foldE (\<lambda>c1. foldE (\<lambda>c2. add_slack ids pairp c1 c2) (children p2))
                 (children p1) model))
           (drop (i + 1) layer))
       (enumerate 0 (take (length layer - 1) layer))"

subsection \<open>optCall\<close>

fun perms_all ::
  "(node \<rightharpoonup> string) \<Rightarrow> Model \<Rightarrow> node list list \<Rightarrow> (error + Model) \<times> node list list" where
  "perms_all ids model [] = (Inr model, [])"
| "perms_all ids model (layer # rest) =
     (case perms ids model layer of
        (Inl e, layer') \<Rightarrow> (Inl e, layer' # rest)
      | (Inr model', layer') \<Rightarrow>
          (case perms_all ids model' rest of (r, rest') \<Rightarrow> (r, layer' # rest')))"

text \<open>
  The comparator of the final sort: \<open>comp(n1, n2) * (ordering[key(n1, n2)] || -1)\<close>.  A value
  that is \<open>undefined\<close> or \<open>0\<close> is falsy.
\<close>

definition final_cmp ::
  "(node \<rightharpoonup> string) \<Rightarrow> (string \<rightharpoonup> real) \<Rightarrow> node \<Rightarrow> node \<Rightarrow> error + real" where
  "final_cmp ids solution n1 n2 =
     bindE (opt_comp ids n1 n2) (\<lambda>c.
     bindE (key ids [n1, n2]) (\<lambda>k.
       Inr (real_of_int c *
         (case solution k of None \<Rightarrow> - 1 | Some v \<Rightarrow> (if v = 0 then - 1 else v)))))"

fun sort_layers ::
  "(node \<rightharpoonup> string) \<Rightarrow> (string \<rightharpoonup> real) \<Rightarrow> node list list \<Rightarrow> error option \<times> node list list" where
  "sort_layers ids solution [] = (None, [])"
| "sort_layers ids solution (layer # rest) =
     (case array_sort (final_cmp ids solution) layer of
        Inl e \<Rightarrow> (Some e, layer # rest)
      | Inr layer' \<Rightarrow>
          (case sort_layers ids solution rest of (r, rest') \<Rightarrow> (r, layer' # rest')))"

definition initial_model :: Model where
  "initial_model =
     \<lparr>optimize = ''opt'', opType = ''min'', constraints = [], variables = [], ints = []\<rparr>"

text \<open>
  The model as \<open>optCall\<close> hands it to \<open>Solve\<close>, with the layers as \<open>perms\<close> leaves them.
\<close>

definition build_model ::
  "(node \<Rightarrow> node list) \<Rightarrow> node list list \<Rightarrow> (error + Model) \<times> node list list" where
  "build_model children layers =
     (let ids = ids_layers 0 layers Map.empty in
      case perms_all ids initial_model layers of
        (Inl e, layers1) \<Rightarrow> (Inl e, layers1)
      | (Inr model1, layers1) \<Rightarrow>
          (foldE (cross ids children) (take (length layers1 - 1) layers1) model1, layers1))"

text \<open>
  \<open>optCall\<close> returns nothing: the result is the error thrown, if any, and the caller's
  layers as the call leaves them.  \<open>Solve\<close> is the solver of \<open>javascript-lp-solver\<close>.
\<close>

definition optCall ::
  "opt_options \<Rightarrow> (Model \<Rightarrow> (string \<rightharpoonup> real)) \<Rightarrow> (node \<Rightarrow> node list) \<Rightarrow> node list list
     \<Rightarrow> error option \<times> node list list" where
  "optCall options Solve children layers =
     (if \<not> clowntown options \<and> 2500 < foldl (\<lambda>t l. t + length l * length l) 0 layers
      then (Some SizeGuardError, layers)
      else
        case build_model children layers of
          (Inl e, layers1) \<Rightarrow> (Some e, layers1)
        | (Inr model, layers1) \<Rightarrow>
            sort_layers (ids_layers 0 layers Map.empty) (Solve model) layers1)"

subsection \<open>What the solver and the drawing mean\<close>

text \<open>
  Modelled from the spec: the solver "accepts {minimize/maximize objective, named
  boolean/real variables with per-constraint coefficients, named constraints with min/max
  bounds, integer-variable designations}; returns a mapping from variable name to solved
  numeric value".  A variable that the mapping leaves out has the value 0.  The row of an
  attribute (a constraint name, or the name of the objective) is the sum over the
  variables of coefficient times value; a solution is feasible when every row lies within
  the bounds of its constraint, no variable is negative, and the variables listed in
  \<open>ints\<close> are integers; it is optimal when it is feasible and no feasible solution has a
  smaller objective (\<open>opType\<close> is "min").
\<close>

definition lp_value :: "(string \<rightharpoonup> real) \<Rightarrow> string \<Rightarrow> real" where
  "lp_value solution v = (case solution v of None \<Rightarrow> 0 | Some x \<Rightarrow> x)"

definition lp_row :: "Model \<Rightarrow> (string \<rightharpoonup> real) \<Rightarrow> string \<Rightarrow> real" where
  "lp_row model solution attr =
     (\<Sum>(v, coefs) \<leftarrow> variables model.
        (case map_of coefs attr of None \<Rightarrow> 0 | Some k \<Rightarrow> k * lp_value solution v))"

definition lp_within :: "bounds \<Rightarrow> real \<Rightarrow> bool" where
  "lp_within b x \<longleftrightarrow>
     (case min_bound b of None \<Rightarrow> True | Some lo \<Rightarrow> lo \<le> x) \<and>
     (case max_bound b of None \<Rightarrow> True | Some hi \<Rightarrow> x \<le> hi)"

definition lp_feasible :: "Model \<Rightarrow> (string \<rightharpoonup> real) \<Rightarrow> bool" where
  "lp_feasible model solution \<longleftrightarrow>
     list_all (\<lambda>(c, b). lp_within b (lp_row model solution c)) (constraints model) \<and>
     list_all (\<lambda>(v, coefs). 0 \<le> lp_value solution v) (variables model) \<and>
     list_all (\<lambda>(v, one). lp_value solution v \<in> \<int>) (ints model)"

definition lp_objective :: "Model \<Rightarrow> (string \<rightharpoonup> real) \<Rightarrow> real" where
  "lp_objective model solution = lp_row model solution (optimize model)"

definition lp_optimal :: "Model \<Rightarrow> (string \<rightharpoonup> real) \<Rightarrow> bool" where
  "lp_optimal model solution \<longleftrightarrow>
     lp_feasible model solution \<and>
     (\<forall>other. lp_feasible model other \<longrightarrow> lp_objective model solution \<le> lp_objective model other)"

text \<open>
  Modelled from the spec: a crossing is "two edges between the same adjacent layers whose
  endpoint orders are inverted".  An edge between two adjacent layers is the pair of the
  positions of its ends.
\<close>

definition edges_between :: "(node \<Rightarrow> node list) \<Rightarrow> node list \<Rightarrow> node list \<Rightarrow> (nat \<times> nat) list" where
  "edges_between children upper lower =
     concat (map (\<lambda>(i, p).
       concat (map (\<lambda>c. map (\<lambda>(j, c'). (i, j)) (filter (\<lambda>(j, c'). c' = c) (enumerate 0 lower)))
         (children p)))
       (enumerate 0 upper))"

definition inverted :: "nat \<times> nat \<Rightarrow> nat \<times> nat \<Rightarrow> bool" where
  "inverted e1 e2 \<longleftrightarrow> (fst e1 < fst e2 \<and> snd e2 < snd e1) \<or> (fst e2 < fst e1 \<and> snd e1 < snd e2)"

fun count_inverted :: "(nat \<times> nat) list \<Rightarrow> nat" where
  "count_inverted [] = 0"
| "count_inverted (e # es) = length (filter (inverted e) es) + count_inverted es"

fun crossings :: "(node \<Rightarrow> node list) \<Rightarrow> node list list \<Rightarrow> nat" where
  "crossings children (upper # lower # rest) =
     count_inverted (edges_between children upper lower) + crossings children (lower # rest)"
| "crossings children layers = 0"

text \<open>
  The solver does its part for a layering when it returns an optimal solution of the
  model that \<open>optCall\<close> builds for it.
\<close>

definition solver_optimal_for ::
  "(Model \<Rightarrow> (string \<rightharpoonup> real)) \<Rightarrow> (node \<Rightarrow> node list) \<Rightarrow> node list list \<Rightarrow> bool" where
  "solver_optimal_for Solve children layers \<longleftrightarrow>
     (\<forall>model layers'. build_model children layers = (Inr model, layers') \<longrightarrow>
        lp_optimal model (Solve model))"


section \<open>Notions used in the proofs\<close>

text \<open>An error other than the size-guard and configuration errors.\<close>

definition internal :: "error + 'a \<Rightarrow> bool" where
  "internal r = (case r of Inl e \<Rightarrow> e = UndefinedError \<or> e = TypeError | Inr x \<Rightarrow> True)"

text \<open>
  The \<open>parents\<close> and \<open>before\<close> lists of a node in \<open>data\<close>; the number of edges into a node from
  a list of nodes; and the \<open>parents\<close> list that the initialisation builds.
\<close>

definition parents_of :: "(node \<rightharpoonup> Data) \<Rightarrow> node \<Rightarrow> node list" where
  "parents_of data n = (case data n of None \<Rightarrow> [] | Some d \<Rightarrow> parents d)"

definition before_of :: "(node \<rightharpoonup> Data) \<Rightarrow> node \<Rightarrow> nat list" where
  "before_of data n = (case data n of None \<Rightarrow> [] | Some d \<Rightarrow> before d)"

definition in_edges :: "(node \<Rightarrow> node list) \<Rightarrow> node list \<Rightarrow> node \<Rightarrow> nat" where
  "in_edges ch ps n = (\<Sum>p\<leftarrow>ps. count_list (ch p) n)"

definition all_parents :: "(node \<Rightarrow> node list) \<Rightarrow> node list \<Rightarrow> node \<Rightarrow> node list" where
  "all_parents ch ps n = concat (map (\<lambda>p. replicate (count_list (ch p) n) p) ps)"

text \<open>
  A node is ready when it has not been dequeued and has as many \<open>before\<close> entries as
  parents.
\<close>

definition ready :: "node list \<Rightarrow> (node \<rightharpoonup> Data) \<Rightarrow> node \<Rightarrow> bool" where
  "ready P data n \<longleftrightarrow> n \<notin> set P \<and> length (before_of data n) = length (parents_of data n)"

text \<open>
  The invariant of the \<open>while\<close> loop, for the list \<open>P\<close> of the nodes dequeued so far.
\<close>

definition cg_inv :: "('q \<Rightarrow> node multiset) \<Rightarrow> Dag \<Rightarrow> int \<Rightarrow> node list \<Rightarrow> 'q cg_state \<Rightarrow> bool" where
  "cg_inv contents dag maxWidth P st \<longleftrightarrow>
     distinct P \<and> set P \<subseteq> set (idescendants dag) \<and>
     dom (st_data st) = set (idescendants dag) \<and>
     (\<forall>n. parents_of (st_data st) n = all_parents (ichildren dag) (idescendants dag) n) \<and>
     (\<forall>n. length (before_of (st_data st) n) = in_edges (ichildren dag) P n) \<and>
     contents (st_queue st) = mset (filter (ready P (st_data st)) (idescendants dag)) \<and>
     (\<forall>n \<in> set P. length (before_of (st_data st) n) = length (parents_of (st_data st) n)) \<and>
     (\<forall>n \<in> set P. \<exists>l. node_layer st n = Some l \<and> l \<le> st_layer st) \<and>
     (\<forall>n \<in> set P. \<forall>p \<in> set (idescendants dag). n \<in> set (ichildren dag p) \<longrightarrow>
        p \<in> set P \<and> (\<exists>l l'. node_layer st p = Some l \<and> node_layer st n = Some l' \<and> l < l')) \<and>
     st_width st = int (card {n \<in> set P. node_layer st n = Some (st_layer st)}) \<and>
     (\<forall>l. int (card {n \<in> set P. node_layer st n = Some l}) \<le> maxWidth)"

text \<open>The DAG with the edges 0 -> 1, 0 -> 2, 1 -> 3 and 2 -> 3.\<close>

definition square :: Dag where
  "square = \<lparr>idescendants = [0, 1, 2, 3], iroots = [0],
     ichildren = (\<lambda>n. if n = 0 then [1, 2] else if n = 1 then [3] else if n = 2 then [3] else [])\<rparr>"

text \<open>
  A layering on which the decrossing misses the minimum: the upper layer holds the nodes
  0, 1, 2 and the lower layer the nodes 3, 4, 5, 6; node 0 has the child 3, node 1 the
  children 3, 4, 5 and node 2 the children 3, 4, 5, 6.
\<close>

definition bug_children :: "node \<Rightarrow> node list" where
  "bug_children n = (if n = 0 then [3] else if n = 1 then [3, 4, 5] else if n = 2 then [3, 4, 5, 6] else [])"

definition bug_layers :: "node list list" where
  "bug_layers = [[0, 1, 2], [3, 4, 5, 6]]"

text \<open>
  The model read by rows: for each constraint its bounds and the variables with their
  coefficients in it.
\<close>

definition lp_row_coefs :: "Model \<Rightarrow> string \<Rightarrow> (string \<times> real) list" where
  "lp_row_coefs model attr =
     concat (map (\<lambda>(v, coefs). case map_of coefs attr of None \<Rightarrow> [] | Some k \<Rightarrow> [(v, k)])
       (variables model))"

definition lp_table :: "Model \<Rightarrow> (bounds \<times> (string \<times> real) list) list" where
  "lp_table model = map (\<lambda>(c, b). (b, lp_row_coefs model c)) (constraints model)"

text \<open>
  The names \<open>key\<close> gives to the pair of the nodes at positions \<open>j\<close> and \<open>k\<close> of layer \<open>i\<close>
  and to the slack variable of two pairs, and the rows that \<open>perms\<close> and \<open>cross\<close> add for
  a pair, a triangle, and a slack variable whose children compare with \<open>sign\<close>.
\<close>

definition pair_name :: "nat \<Rightarrow> nat \<Rightarrow> nat \<Rightarrow> string" where
  "pair_name i j k = mk_id i j @ '' => '' @ mk_id i k"

definition slack_name :: "string \<Rightarrow> string \<Rightarrow> string" where
  "slack_name pairp pairc = ''slack ('' @ pairp @ '') ('' @ pairc @ '')''"

definition pair_row :: "string \<Rightarrow> bounds \<times> (string \<times> real) list" where
  "pair_row pair = (\<lparr>min_bound = None, max_bound = Some 1\<rparr>, [(pair, 1)])"

definition triangle_rows :: "string \<Rightarrow> string \<Rightarrow> string \<Rightarrow> (bounds \<times> (string \<times> real) list) list" where
  "triangle_rows pair1 pair2 pair3 =
     [(\<lparr>min_bound = None, max_bound = Some 1\<rparr>, [(pair1, 1), (pair2, - 1), (pair3, 1)]),
      (\<lparr>min_bound = Some 0, max_bound = None\<rparr>, [(pair1, 1), (pair2, - 1), (pair3, 1)])]"

definition slack_rows :: "real \<Rightarrow> string \<Rightarrow> string \<Rightarrow> (bounds \<times> (string \<times> real) list) list" where
  "slack_rows sign pairp pairc =
     [(\<lparr>min_bound = Some (max sign 0), max_bound = None\<rparr>,
       [(pairp, 1), (pairc, sign), (slack_name pairp pairc, 1)]),
      (\<lparr>min_bound = Some (- max sign 0), max_bound = None\<rparr>,
       [(pairp, - 1), (pairc, - sign), (slack_name pairp pairc, 1)])]"

text \<open>
  The model of the layering above: its pair variables, its slack variables (with the sign
  of the last combination of children written under each name), its rows, and what
  feasibility and the objective come to for an assignment of values to the names.
\<close>

definition bug_pairs :: "string list" where
  "bug_pairs = [pair_name 0 0 1, pair_name 0 0 2, pair_name 0 1 2,
     pair_name 1 0 1, pair_name 1 0 2, pair_name 1 0 3,
     pair_name 1 1 2, pair_name 1 1 3, pair_name 1 2 3]"

definition bug_slacks :: "(real \<times> string \<times> string) list" where
  "bug_slacks =
    [(- 1, pair_name 0 0 1, pair_name 1 0 1), (- 1, pair_name 0 0 1, pair_name 1 0 2),
     (- 1, pair_name 0 0 2, pair_name 1 0 1), (- 1, pair_name 0 0 2, pair_name 1 0 2),
     (- 1, pair_name 0 0 2, pair_name 1 0 3),
     (1, pair_name 0 1 2, pair_name 1 0 1), (1, pair_name 0 1 2, pair_name 1 0 2),
     (- 1, pair_name 0 1 2, pair_name 1 0 3), (1, pair_name 0 1 2, pair_name 1 1 2),
     (- 1, pair_name 0 1 2, pair_name 1 1 3), (- 1, pair_name 0 1 2, pair_name 1 2 3)]"

definition bug_table :: "(bounds \<times> (string \<times> real) list) list" where
  "bug_table =
     map pair_row (take 3 bug_pairs) @
     triangle_rows (pair_name 0 0 1) (pair_name 0 0 2) (pair_name 0 1 2) @
     map pair_row (drop 3 bug_pairs) @
     triangle_rows (pair_name 1 0 1) (pair_name 1 0 2) (pair_name 1 1 2) @
     triangle_rows (pair_name 1 0 1) (pair_name 1 0 3) (pair_name 1 1 3) @
     triangle_rows (pair_name 1 0 2) (pair_name 1 0 3) (pair_name 1 2 3) @
     triangle_rows (pair_name 1 1 2) (pair_name 1 1 3) (pair_name 1 2 3) @
     concat (map (\<lambda>(sign, pairp, pairc). slack_rows sign pairp pairc) bug_slacks)"

definition bug_feasible :: "(string \<Rightarrow> real) \<Rightarrow> bool" where
  "bug_feasible val \<longleftrightarrow>
     list_all (\<lambda>(b, row). lp_within b (\<Sum>(v, k) \<leftarrow> row. k * val v)) bug_table \<and>
     list_all (\<lambda>v. 0 \<le> val v) (bug_pairs @ map (\<lambda>(sign, pairp, pairc). slack_name pairp pairc) bug_slacks) \<and>
     list_all (\<lambda>v. val v \<in> \<int>) bug_pairs"

definition bug_objective :: "(string \<Rightarrow> real) \<Rightarrow> real" where
  "bug_objective val = (\<Sum>(sign, pairp, pairc) \<leftarrow> bug_slacks. val (slack_name pairp pairc))"

text \<open>
  A solution of that model with objective 1: the upper layer in the order 0, 2, 1 and the
  lower layer in the order 3, 6, 4, 5.
\<close>

definition bug_solution :: "string \<rightharpoonup> real" where
  "bug_solution = map_of
     [(pair_name 0 0 1, 1), (pair_name 0 0 2, 1),
      (pair_name 1 0 1, 1), (pair_name 1 0 2, 1), (pair_name 1 0 3, 1), (pair_name 1 1 2, 1),
      (slack_name (pair_name 0 1 2) (pair_name 1 0 3), 1)]"

subsection \<open>Layerings on which the optimal operator returns\<close>

text \<open>
  Every child of a node of a layer but the last is a node of the next layer.  Nothing is
  asked of the children of the last layer, nor that a node occurs only once.
\<close>

fun edges_adjacent :: "(node \<Rightarrow> node list) \<Rightarrow> node list list \<Rightarrow> bool" where
  "edges_adjacent children (layer # lower # rest) \<longleftrightarrow>
     (\<forall>p \<in> set layer. set (children p) \<subseteq> set lower) \<and> edges_adjacent children (lower # rest)"
| "edges_adjacent children [layer] \<longleftrightarrow> True"
| "edges_adjacent children [] \<longleftrightarrow> True"

text \<open>The names of the variables of a model, and the names of the pair variables of a layer.\<close>

definition var_names :: "Model \<Rightarrow> string set" where
  "var_names model = fst ` set (variables model)"

definition pair_keys :: "(node \<rightharpoonup> string) \<Rightarrow> node list \<Rightarrow> string set" where
  "pair_keys ids layer =
     {k. \<exists>i j. i < j \<and> j < length layer \<and> key ids [layer ! i, layer ! j] = Inr k}"


section \<open>Properties of the configuration interface\<close>

text \<open>
  C8: a factory called with arguments throws and builds nothing; \<open>width\<close> called with a
  negative number throws, and with any other number stores exactly that number.
\<close>

theorem factories_and_width_reject_eagerly:
  "(args \<noteq> [] \<longrightarrow> opt h args = Inl ArgumentsError) \<and>
   (args \<noteq> [] \<longrightarrow> coffmanGraham h' args = Inl ArgumentsError) \<and>
   (w < 0 \<longrightarrow> width_set h' r w = Inl (WidthError w)) \<and>
   (0 \<le> w \<longrightarrow> (\<exists>h'' r'. width_set h' r w = Inr (h'', r') \<and> width_get h'' r' = w))"
  by (simp add: opt_def coffmanGraham_def width_set_def width_get_def cg_buildOperator_def)

theorem factories_and_width_reject_eagerly_witness:
  "[True] \<noteq> [] \<and> opt [] [True] = Inl ArgumentsError \<and>
   coffmanGraham [\<lparr>width = 0\<rparr>] [True] = Inl ArgumentsError \<and>
   (-1::real) < 0 \<and> width_set [\<lparr>width = 0\<rparr>] 0 (-1) = Inl (WidthError (-1)) \<and>
   (0::real) \<le> 3 \<and> (\<exists>h'' r'. width_set [\<lparr>width = 0\<rparr>] 0 3 = Inr (h'', r') \<and> width_get h'' r' = 3)"
  using factories_and_width_reject_eagerly
      [where args = "[True]" and h = "[]" and h' = "[\<lparr>width = 0\<rparr>]" and w = "-1" and r = 0]
    factories_and_width_reject_eagerly
      [where args = "[True]" and h = "[]" and h' = "[\<lparr>width = 0\<rparr>]" and w = 3 and r = 0]
  by simp

text \<open>
  C9: a setter allocates a new operator; the operator it was called on, and every other
  operator of the store, keeps its options, so its getter returns what it returned before.
\<close>

theorem setters_build_new_operator:
  assumes "r < length h" and "q < length g" and "0 \<le> w"
  shows "(case clowntown_set h r v of (h', r') \<Rightarrow>
            r' \<noteq> r \<and> clowntown_get h' r' = v \<and> clowntown_get h' r = clowntown_get h r \<and>
            take (length h) h' = h) \<and>
         (\<exists>g' q'. width_set g q w = Inr (g', q') \<and>
            q' \<noteq> q \<and> width_get g' q' = w \<and> width_get g' q = width_get g q \<and>
            take (length g) g' = g)"
  using assms
  by (simp add: clowntown_set_def opt_buildOperator_def clowntown_get_def width_set_def
      cg_buildOperator_def width_get_def nth_append)

theorem setters_build_new_operator_witness:
  "(0::nat) < length [\<lparr>clowntown = False\<rparr>] \<and> (0::nat) < length [\<lparr>width = 0\<rparr>] \<and> (0::real) \<le> 2 \<and>
   (case clowntown_set [\<lparr>clowntown = False\<rparr>] 0 True of (h', r') \<Rightarrow>
      r' \<noteq> 0 \<and> clowntown_get h' r' = True \<and>
      clowntown_get h' 0 = clowntown_get [\<lparr>clowntown = False\<rparr>] 0 \<and>
      take (length [\<lparr>clowntown = False\<rparr>]) h' = [\<lparr>clowntown = False\<rparr>]) \<and>
   (\<exists>g' q'. width_set [\<lparr>width = 0\<rparr>] 0 2 = Inr (g', q') \<and>
      q' \<noteq> 0 \<and> width_get g' q' = 2 \<and> width_get g' 0 = width_get [\<lparr>width = 0\<rparr>] 0 \<and>
      take (length [\<lparr>width = 0\<rparr>]) g' = [\<lparr>width = 0\<rparr>])"
  using setters_build_new_operator
      [where r = 0 and h = "[\<lparr>clowntown = False\<rparr>]" and q = 0 and g = "[\<lparr>width = 0\<rparr>]"
         and w = 2 and v = True]
  by simp

section \<open>Properties of the Coffman-Graham comparator and width\<close>

lemma comp_loop_prefix:
  "length pre = i \<Longrightarrow> comp_loop i xs (pre @ xs @ suf)"
proof (induction xs arbitrary: i pre)
  case Nil
  then show ?case by simp
next
  case (Cons x xs)
  have "comp_loop (Suc i) xs ((pre @ [x]) @ xs @ suf)"
    by (rule Cons.IH) (simp add: Cons.prems)
  with Cons.prems show ?case by (simp add: nth_append)
qed

lemma comp_loop_longer:
  "length pre = i \<Longrightarrow> \<not> comp_loop i (xs @ y # ys) (pre @ xs)"
proof (induction xs arbitrary: i pre)
  case Nil
  then show ?case by simp
next
  case (Cons x xs)
  have "\<not> comp_loop (Suc i) (xs @ y # ys) ((pre @ [x]) @ xs)"
    by (rule Cons.IH) (simp add: Cons.prems)
  with Cons.prems show ?case by (simp add: nth_append)
qed

text \<open>
  C6, as the code has it: when the readiness list of \<open>l\<close> is a proper prefix of the
  readiness list of \<open>r\<close>, the comparator answers \<open>true\<close> for \<open>(l, r)\<close> (the loop runs out of
  entries of \<open>l\<close>) and \<open>false\<close> for \<open>(r, l)\<close> (the entry of \<open>l\<close> is \<open>undefined\<close>): the node with
  the shorter list is ordered before the node with the longer one.
\<close>

theorem comp_strict_prefix_is_less:
  assumes "data l = Some dl" and "data r = Some dr"
    and "strict_prefix (before dl) (before dr)"
  shows "cg_comp data l r = Inr True \<and> cg_comp data r l = Inr False"
proof -
  from assms(3) obtain y ys where eq: "before dr = before dl @ y # ys"
    by (auto simp: strict_prefix_def prefix_def neq_Nil_conv)
  have "comp_loop 0 (before dl) ([] @ before dl @ y # ys)"
    by (rule comp_loop_prefix) simp
  moreover have "\<not> comp_loop 0 (before dl @ y # ys) ([] @ before dl)"
    by (rule comp_loop_longer) simp
  ultimately show ?thesis
    using assms(1,2) eq by (simp add: cg_comp_def def_def)
qed

theorem comp_strict_prefix_is_less_witness:
  "strict_prefix [1::nat] [1, 0] \<and>
   cg_comp [0 \<mapsto> \<lparr>before = [1], parents = [2]\<rparr>, 1 \<mapsto> \<lparr>before = [1, 0], parents = [2, 3]\<rparr>] 0 1
     = Inr True \<and>
   cg_comp [0 \<mapsto> \<lparr>before = [1], parents = [2]\<rparr>, 1 \<mapsto> \<lparr>before = [1, 0], parents = [2, 3]\<rparr>] 1 0
     = Inr False"
proof -
  have p: "strict_prefix (before \<lparr>before = [1], parents = [2]\<rparr>)
             (before \<lparr>before = [1, 0], parents = [2, 3]\<rparr>)"
    by simp
  show ?thesis
    using p comp_strict_prefix_is_less
      [where data = "[0 \<mapsto> \<lparr>before = [1], parents = [2]\<rparr>, 1 \<mapsto> \<lparr>before = [1, 0], parents = [2, 3]\<rparr>]"
         and l = 0 and r = 1, OF _ _ p]
    by simp
qed

text \<open>
  The claim as written (the two nodes compare equal) fails: node \<open>0\<close>, with one parent
  dequeued at rank 1, is strictly less than node \<open>1\<close>, with parents dequeued at ranks 1
  and 0.
\<close>

theorem comp_strict_prefix_not_equal:
  "strict_prefix [1::nat] [1, 0] \<and>
   \<not> (cg_comp [0 \<mapsto> \<lparr>before = [1], parents = [2]\<rparr>, 1 \<mapsto> \<lparr>before = [1, 0], parents = [2, 3]\<rparr>] 0 1
        \<noteq> Inr True \<and>
      cg_comp [0 \<mapsto> \<lparr>before = [1], parents = [2]\<rparr>, 1 \<mapsto> \<lparr>before = [1, 0], parents = [2, 3]\<rparr>] 1 0
        \<noteq> Inr True)"
  by (simp add: cg_comp_def def_def)

text \<open>
  C5: with the configured width 0 and a DAG of three nodes the code computes
  \<open>floor (sqrt 3.5) = 1\<close>, while the square root of 3 rounded to the nearest integer is 2.
\<close>

theorem maxWidth_auto_three_nodes:
  "cg_maxWidth \<lparr>width = 0\<rparr> 3 = 1 \<and> round (sqrt (real 3)) = (2::int)"
proof -
  have a: "1 \<le> sqrt (7 / 2)"
    by (simp add: real_le_rsqrt)
  have b: "sqrt (7 / 2) < 2"
    by (rule real_less_lsqrt) simp_all
  have c: "3 / 2 \<le> sqrt 3"
    by (rule real_le_rsqrt) (simp add: power2_eq_square)
  have d: "sqrt 3 < 5 / 2"
    by (rule real_less_lsqrt) (simp_all add: power2_eq_square)
  have "\<lfloor>sqrt (7 / 2)\<rfloor> = 1"
    using a b by (simp add: floor_eq_iff)
  moreover have "round (sqrt 3) = 2"
    using c d unfolding round_def by (simp add: floor_eq_iff)
  ultimately show ?thesis
    by (simp add: cg_maxWidth_def)
qed

section \<open>Properties of the optimal decrossing operator\<close>


lemma bindE_eq_Inr: "bindE r f = Inr y \<longleftrightarrow> (\<exists>x. r = Inr x \<and> f x = Inr y)"
  by (cases r) simp_all

lemma bindE_eq_Inl: "bindE r f = Inl e \<longleftrightarrow> r = Inl e \<or> (\<exists>x. r = Inr x \<and> f x = Inl e)"
  by (cases r) simp_all

lemma sort_insert_mset: "sort_insert cmp x rs = Inr rs' \<Longrightarrow> mset rs' = add_mset x (mset rs)"
  by (induction rs arbitrary: rs') (auto simp: bindE_eq_Inr split: if_splits)

lemma foldE_sort_insert_mset:
  "foldE (sort_insert cmp) xs acc = Inr acc' \<Longrightarrow> mset acc' = mset xs + mset acc"
  by (induction xs arbitrary: acc) (auto simp: bindE_eq_Inr dest!: sort_insert_mset)

lemma array_sort_mset: "array_sort cmp xs = Inr ys \<Longrightarrow> mset ys = mset xs"
  by (auto simp: array_sort_def bindE_eq_Inr dest!: foldE_sort_insert_mset)

lemma perms_mset: "perms ids model layer = (r, layer') \<Longrightarrow> mset layer' = mset layer"
  by (auto simp: perms_def split: sum.splits dest: array_sort_mset)

lemma perms_all_mset:
  "perms_all ids model layers = (r, layers') \<Longrightarrow> map mset layers' = map mset layers"
proof (induction layers arbitrary: model r layers')
  case Nil
  then show ?case by simp
next
  case (Cons layer rest)
  obtain r1 layer1 where p: "perms ids model layer = (r1, layer1)"
    by (cases "perms ids model layer")
  show ?case
  proof (cases r1)
    case (Inl e)
    with Cons.prems p show ?thesis by (auto dest: perms_mset)
  next
    case (Inr model1)
    obtain r2 rest2 where q: "perms_all ids model1 rest = (r2, rest2)"
      by (cases "perms_all ids model1 rest")
    from Cons.IH [OF q] Cons.prems p Inr q show ?thesis
      by (auto dest: perms_mset)
  qed
qed

lemma sort_layers_mset:
  "sort_layers ids solution layers = (r, layers') \<Longrightarrow> map mset layers' = map mset layers"
proof (induction layers arbitrary: r layers')
  case Nil
  then show ?case by simp
next
  case (Cons layer rest)
  show ?case
  proof (cases "array_sort (final_cmp ids solution) layer")
    case (Inl e)
    with Cons.prems show ?thesis by auto
  next
    case (Inr layer1)
    obtain r2 rest2 where q: "sort_layers ids solution rest = (r2, rest2)"
      by (cases "sort_layers ids solution rest")
    from Cons.IH [OF q] Cons.prems Inr q show ?thesis
      by (auto dest: array_sort_mset)
  qed
qed

lemma build_model_mset:
  "build_model children layers = (r, layers') \<Longrightarrow> map mset layers' = map mset layers"
  by (auto simp: build_model_def Let_def split: prod.splits sum.splits dest: perms_all_mset)

text \<open>
  Whatever the solver returns and however the call ends, the caller's layer sequence has the
  same number of layers after the call, and each layer holds the same nodes with the same
  multiplicities as before.
\<close>

lemma optCall_mset:
  "map mset (snd (optCall options Solve children layers)) = map mset layers"
proof (cases "\<not> clowntown options \<and> 2500 < foldl (\<lambda>t l. t + length l * length l) 0 layers")
  case True
  then show ?thesis by (simp add: optCall_def)
next
  case False
  obtain r layers1 where b: "build_model children layers = (r, layers1)"
    by (cases "build_model children layers")
  have m1: "map mset layers1 = map mset layers"
    by (rule build_model_mset [OF b])
  show ?thesis
  proof (cases r)
    case (Inl e)
    with False b m1 show ?thesis by (simp add: optCall_def)
  next
    case (Inr model)
    obtain r2 layers2 where s: "sort_layers (ids_layers 0 layers Map.empty) (Solve model) layers1 = (r2, layers2)"
      by (cases "sort_layers (ids_layers 0 layers Map.empty) (Solve model) layers1")
    from sort_layers_mset [OF s] m1 False b Inr s show ?thesis
      by (simp add: optCall_def)
  qed
qed



lemma internal_Inr [simp]: "internal (Inr x)"
  by (simp add: internal_def)

lemma internal_Inl [simp]: "internal (Inl e) \<longleftrightarrow> e = UndefinedError \<or> e = TypeError"
  by (simp add: internal_def)

lemma internal_bindE: "internal r \<Longrightarrow> (\<And>x. internal (f x)) \<Longrightarrow> internal (bindE r f)"
  by (cases r) simp_all

lemma internal_foldE: "(\<And>x s. internal (f x s)) \<Longrightarrow> internal (foldE f xs s)"
  by (induction xs arbitrary: s) (simp_all add: internal_bindE)

lemma internal_def': "internal (def v)"
  by (cases v) (simp_all add: def_def)

lemma internal_sort_insert: "(\<And>a b. internal (cmp a b)) \<Longrightarrow> internal (sort_insert cmp x rs)"
  by (induction rs) (simp_all add: internal_bindE)

lemma internal_array_sort: "(\<And>a b. internal (cmp a b)) \<Longrightarrow> internal (array_sort cmp xs)"
  by (simp add: array_sort_def internal_bindE internal_foldE internal_sort_insert)

lemma internal_map_def: "internal (map_def ids ns)"
  by (induction ns) (simp_all add: internal_bindE internal_def')

lemma internal_key: "internal (key ids ns)"
  by (simp add: key_def internal_bindE internal_map_def internal_array_sort)

lemma internal_opt_comp: "internal (opt_comp ids a b)"
  by (simp add: opt_comp_def internal_bindE internal_def')

lemma internal_set_coef: "internal (set_coef v a k m)"
  by (simp add: set_coef_def split: option.splits)

lemma internal_add_pair: "internal (add_pair ids a b m)"
  by (simp add: add_pair_def internal_bindE internal_key)

lemma internal_add_triangle: "internal (add_triangle ids a b c m)"
  by (simp add: add_triangle_def Let_def internal_bindE internal_key internal_set_coef)

lemma internal_add_slack: "internal (add_slack ids p a b m)"
  by (simp add: add_slack_def Let_def internal_bindE internal_key internal_set_coef internal_opt_comp)

lemma internal_perms_pairs: "internal (perms_pairs ids layer m)"
  by (simp add: perms_pairs_def internal_foldE internal_add_pair split_def)

lemma internal_perms_triangles: "internal (perms_triangles ids layer m)"
  by (simp add: perms_triangles_def internal_foldE internal_add_triangle split_def)

lemma internal_map_sum: "internal r \<Longrightarrow> internal (map_sum id f r)"
  by (cases r) simp_all

lemma internal_perms: "internal (fst (perms ids m layer))"
proof -
  have "internal (array_sort (\<lambda>n1 n2. map_sum id real_of_int (opt_comp ids n1 n2)) layer)"
    by (rule internal_array_sort) (simp add: internal_map_sum internal_opt_comp)
  then show ?thesis
    by (auto simp: perms_def internal_bindE internal_perms_pairs internal_perms_triangles
        split: sum.splits)
qed

lemma internal_perms_all: "internal (fst (perms_all ids m layers))"
proof (induction layers arbitrary: m)
  case Nil
  show ?case by simp
next
  case (Cons layer rest)
  obtain r1 layer1 where p: "perms ids m layer = (r1, layer1)"
    by (cases "perms ids m layer")
  show ?case
  proof (cases r1)
    case (Inl e)
    with internal_perms [of ids m layer] p show ?thesis by simp
  next
    case (Inr m1)
    with Cons.IH [of m1] p show ?thesis by (auto split: prod.splits)
  qed
qed

lemma internal_cross: "internal (cross ids children layer m)"
  by (simp add: cross_def internal_foldE internal_bindE internal_key internal_add_slack split_def)

lemma internal_build_model: "internal (fst (build_model children layers))"
  using internal_perms_all [of "ids_layers 0 layers Map.empty" initial_model layers]
  by (auto simp: build_model_def Let_def internal_foldE internal_cross split: prod.splits sum.splits)

lemma internal_final_cmp: "internal (final_cmp ids solution a b)"
  by (simp add: final_cmp_def internal_bindE internal_key internal_opt_comp)

lemma sort_layers_no_guard: "fst (sort_layers ids solution layers) \<noteq> Some SizeGuardError"
proof (induction layers)
  case Nil
  show ?case by simp
next
  case (Cons layer rest)
  have "internal (array_sort (final_cmp ids solution) layer)"
    by (rule internal_array_sort) (rule internal_final_cmp)
  with Cons.IH show ?case
    by (auto split: sum.splits prod.splits)
qed

lemma foldl_sizes: "foldl (\<lambda>t l. t + length l * length l) a layers = a + (\<Sum>l\<leftarrow>layers. (length l)\<^sup>2)"
  by (induction layers arbitrary: a) (simp_all add: power2_eq_square)

text \<open>
  C3: when the squared layer sizes add up to more than 2500 and \<open>clowntown\<close> is unset, the
  call throws the size-guard error and leaves the layers as they were, whatever the solver
  and the edges are (neither is consulted); with \<open>clowntown\<close> set the call never throws the
  size-guard error.
\<close>

theorem size_guard:
  assumes "2500 < (\<Sum>l\<leftarrow>layers. (length l)\<^sup>2)"
  shows "optCall \<lparr>clowntown = False\<rparr> Solve children layers = (Some SizeGuardError, layers) \<and>
         fst (optCall \<lparr>clowntown = True\<rparr> Solve children layers) \<noteq> Some SizeGuardError"
proof
  show "optCall \<lparr>clowntown = False\<rparr> Solve children layers = (Some SizeGuardError, layers)"
    using assms by (simp add: optCall_def foldl_sizes)
  show "fst (optCall \<lparr>clowntown = True\<rparr> Solve children layers) \<noteq> Some SizeGuardError"
    using internal_build_model [of children layers] sort_layers_no_guard
    by (auto simp: optCall_def split: prod.splits sum.splits)
qed

theorem size_guard_witness:
  "2500 < (\<Sum>l\<leftarrow>[[0..<51]]. (length l)\<^sup>2) \<and>
   optCall \<lparr>clowntown = False\<rparr> (\<lambda>m. Map.empty) (\<lambda>n. []) [[0..<51]] = (Some SizeGuardError, [[0..<51]]) \<and>
   fst (optCall \<lparr>clowntown = True\<rparr> (\<lambda>m. Map.empty) (\<lambda>n. []) [[0..<51]]) \<noteq> Some SizeGuardError"
proof -
  have h: "2500 < (\<Sum>l\<leftarrow>[[0..<51]]. (length l)\<^sup>2)"
    by simp
  show ?thesis
    using h size_guard [OF h, of "\<lambda>m. Map.empty" "\<lambda>n. []"] by blast
qed



lemma multiplier_zero_absent:
  "(case (solution(k := None)) ka of None \<Rightarrow> - 1 | Some v \<Rightarrow> (if v = 0 then - 1 else v)) =
   (case (solution(k \<mapsto> 0)) ka of None \<Rightarrow> - 1 | Some v \<Rightarrow> (if v = 0 then - 1 else (v::real)))"
  by simp

lemma final_cmp_zero_absent:
  "final_cmp ids (solution(k := None)) = final_cmp ids (solution(k \<mapsto> 0))"
  by (intro ext) (simp only: final_cmp_def multiplier_zero_absent)

lemma sort_layers_zero_absent:
  "sort_layers ids (solution(k := None)) layers = sort_layers ids (solution(k \<mapsto> 0)) layers"
  by (induction layers) (simp_all only: sort_layers.simps final_cmp_zero_absent)

lemma final_cmp_fallback:
  assumes "opt_comp ids n1 n2 = Inr c" and "key ids [n1, n2] = Inr k"
    and "solution k = None \<or> solution k = Some 0"
  shows "final_cmp ids solution n1 n2 = Inr (real_of_int c * (- 1))"
  using assms by (auto simp: final_cmp_def)

text \<open>
  C10: in the comparator of the final sort a solved value of 0 and a missing value both
  give the multiplier \<open>-1\<close>; the comparator, the sorted layers and the outcome of the whole
  call are the same whether the solver reports a variable as 0 or leaves it out.
\<close>

theorem zero_value_same_as_missing:
  "final_cmp ids (solution(k := None)) n1 n2 = final_cmp ids (solution(k \<mapsto> 0)) n1 n2 \<and>
   sort_layers ids (solution(k := None)) layers = sort_layers ids (solution(k \<mapsto> 0)) layers \<and>
   optCall options (\<lambda>m. (Solve m)(k := None)) children layers =
     optCall options (\<lambda>m. (Solve m)(k \<mapsto> 0)) children layers \<and>
   (opt_comp ids n1 n2 = Inr c \<longrightarrow> key ids [n1, n2] = Inr k \<longrightarrow>
      final_cmp ids (solution(k := None)) n1 n2 = Inr (real_of_int c * (- 1)) \<and>
      final_cmp ids (solution(k \<mapsto> 0)) n1 n2 = Inr (real_of_int c * (- 1)))"
proof (intro conjI impI)
  show "final_cmp ids (solution(k := None)) n1 n2 = final_cmp ids (solution(k \<mapsto> 0)) n1 n2"
    by (simp only: final_cmp_zero_absent)
  show "sort_layers ids (solution(k := None)) layers = sort_layers ids (solution(k \<mapsto> 0)) layers"
    by (rule sort_layers_zero_absent)
  show "optCall options (\<lambda>m. (Solve m)(k := None)) children layers =
     optCall options (\<lambda>m. (Solve m)(k \<mapsto> 0)) children layers"
    by (simp only: optCall_def sort_layers_zero_absent)
next
  assume "opt_comp ids n1 n2 = Inr c" and "key ids [n1, n2] = Inr k"
  then show "final_cmp ids (solution(k := None)) n1 n2 = Inr (real_of_int c * (- 1))"
    and "final_cmp ids (solution(k \<mapsto> 0)) n1 n2 = Inr (real_of_int c * (- 1))"
    by (simp_all add: final_cmp_fallback)
qed

lemma ids_ex: "ids_layers 0 [[0, 1], [2, 3]] Map.empty =
   [0 \<mapsto> ''(0 0)'', 1 \<mapsto> ''(0 1)'', 2 \<mapsto> ''(1 0)'', 3 \<mapsto> ''(1 1)'']"
  by (simp add: mk_id_def number_toString.simps digit_def)

theorem zero_value_same_as_missing_witness:
  "opt_comp (ids_layers 0 [[0, 1], [2, 3]] Map.empty) 0 1 = Inr (- 1) \<and>
   key (ids_layers 0 [[0, 1], [2, 3]] Map.empty) [0, 1] = Inr ''(0 0) => (0 1)'' \<and>
   final_cmp (ids_layers 0 [[0, 1], [2, 3]] Map.empty) (Map.empty(''(0 0) => (0 1)'' := None)) 0 1 = Inr 1 \<and>
   final_cmp (ids_layers 0 [[0, 1], [2, 3]] Map.empty) (Map.empty(''(0 0) => (0 1)'' \<mapsto> 0)) 0 1 = Inr 1"
proof -
  have a: "opt_comp (ids_layers 0 [[0, 1], [2, 3]] Map.empty) 0 1 = Inr (- 1)"
    unfolding ids_ex by (simp add: opt_comp_def def_def)
  have b: "key (ids_layers 0 [[0, 1], [2, 3]] Map.empty) [0, 1] = Inr ''(0 0) => (0 1)''"
    unfolding ids_ex by (simp add: key_def def_def array_sort_def)
  show ?thesis
    using a b zero_value_same_as_missing
      [where ids = "ids_layers 0 [[0, 1], [2, 3]] Map.empty" and ?n1.0 = 0 and ?n2.0 = 1
         and c = "- 1" and k = "''(0 0) => (0 1)''" and solution = Map.empty]
    by simp
qed

lemma foldE_unchanged: "(\<And>x. x \<in> set xs \<Longrightarrow> f x s = Inr s) \<Longrightarrow> foldE f xs s = Inr s"
  by (induction xs) simp_all

lemma map_def_defined: "set ns \<subseteq> dom ids \<Longrightarrow> \<exists>ss. map_def ids ns = Inr ss"
  by (induction ns) (auto simp: def_def)

lemma sort_insert_pure:
  "(\<And>a b. \<exists>v. cmp a b = Inr v) \<Longrightarrow> \<exists>rs'. sort_insert cmp x rs = Inr rs'"
proof (induction rs)
  case Nil
  show ?case by simp
next
  case (Cons t rs)
  from Cons.prems obtain v where v: "cmp t x = Inr v" by blast
  from Cons.IH Cons.prems obtain rs' where "sort_insert cmp x rs = Inr rs'" by blast
  with v show ?case by simp
qed

lemma foldE_sort_insert_pure:
  "(\<And>a b. \<exists>v. cmp a b = Inr v) \<Longrightarrow> \<exists>acc'. foldE (sort_insert cmp) xs acc = Inr acc'"
proof (induction xs arbitrary: acc)
  case Nil
  show ?case by simp
next
  case (Cons x xs)
  from sort_insert_pure [of cmp x acc] Cons.prems obtain acc1 where "sort_insert cmp x acc = Inr acc1"
    by blast
  with Cons.IH [of acc1] Cons.prems show ?case by simp
qed

lemma array_sort_pure: "(\<And>a b. \<exists>v. cmp a b = Inr v) \<Longrightarrow> \<exists>ys. array_sort cmp xs = Inr ys"
  using foldE_sort_insert_pure [of cmp xs "[]"] by (auto simp: array_sort_def)

lemma key_defined: "set ns \<subseteq> dom ids \<Longrightarrow> \<exists>k. key ids ns = Inr k"
proof -
  assume "set ns \<subseteq> dom ids"
  then obtain ss where ss: "map_def ids ns = Inr ss"
    using map_def_defined by blast
  obtain strs where "array_sort (\<lambda>a b. Inr (real_of_int (localeCompare a b))) ss = Inr strs"
    using array_sort_pure [of "\<lambda>a b. Inr (real_of_int (localeCompare a b))" ss] by auto
  with ss show ?thesis by (simp add: key_def)
qed

lemma perms_small: "length layer \<le> 1 \<Longrightarrow> perms ids model layer = (Inr model, layer)"
proof -
  assume "length layer \<le> 1"
  then consider "layer = []" | x where "layer = [x]"
    by (cases layer) auto
  then show ?thesis
    by cases (simp_all add: perms_def array_sort_def perms_pairs_def perms_triangles_def)
qed

lemma cross_no_children:
  assumes "set layer \<subseteq> dom ids" and "\<forall>p\<in>set layer. children p = []"
  shows "cross ids children layer model = Inr model"
  unfolding cross_def
proof (rule foldE_unchanged)
  fix x assume x: "x \<in> set (enumerate 0 (take (length layer - 1) layer))"
  obtain i p1 where ip: "x = (i, p1)" by (cases x)
  with x have p1: "p1 \<in> set layer"
    by (auto simp: in_set_enumerate_eq dest: in_set_takeD)
  have "foldE (\<lambda>p2 model.
             bindE (key ids [p1, p2]) (\<lambda>pairp.
               foldE (\<lambda>c1. foldE (\<lambda>c2. add_slack ids pairp c1 c2) (children p2))
                 (children p1) model))
           (drop (i + 1) layer) model = Inr model"
  proof (rule foldE_unchanged)
    fix p2 assume "p2 \<in> set (drop (i + 1) layer)"
    then have "p2 \<in> set layer" by (rule in_set_dropD)
    with p1 assms(1) obtain k where "key ids [p1, p2] = Inr k"
      using key_defined [of "[p1, p2]" ids] by auto
    moreover from p1 assms(2) have "children p1 = []" by blast
    ultimately show "bindE (key ids [p1, p2]) (\<lambda>pairp.
               foldE (\<lambda>c1. foldE (\<lambda>c2. add_slack ids pairp c1 c2) (children p2))
                 (children p1) model) = Inr model"
      by simp
  qed
  with ip show "(case x of (i, p1) \<Rightarrow>
          foldE (\<lambda>p2 model.
             bindE (key ids [p1, p2]) (\<lambda>pairp.
               foldE (\<lambda>c1. foldE (\<lambda>c2. add_slack ids pairp c1 c2) (children p2))
                 (children p1) model))
           (drop (i + 1) layer)) model = Inr model"
    by simp
qed

text \<open>
  C7: \<open>perms\<close> on a layer of at most one node returns the model as it was (no pair variable,
  no transitivity constraint), and \<open>cross\<close> on a layer whose nodes have no outgoing edge
  returns the model as it was (no slack variable, no term of the objective).
\<close>

theorem degenerate_layers_add_nothing:
  "(length layer \<le> 1 \<longrightarrow> perms ids model layer = (Inr model, layer)) \<and>
   (set layer \<subseteq> dom ids \<longrightarrow> (\<forall>p\<in>set layer. children p = []) \<longrightarrow>
      cross ids children layer model = Inr model)"
  using perms_small cross_no_children by blast

theorem degenerate_layers_add_nothing_witness:
  "length [5::nat] \<le> 1 \<and> perms (ids_layers 0 [[0, 1], [2, 3]] Map.empty) initial_model [5] = (Inr initial_model, [5]) \<and>
   set [0, 1] \<subseteq> dom (ids_layers 0 [[0, 1], [2, 3]] Map.empty) \<and>
   cross (ids_layers 0 [[0, 1], [2, 3]] Map.empty) (\<lambda>n. []) [0, 1] initial_model = Inr initial_model"
proof -
  have a: "set [0, 1] \<subseteq> dom (ids_layers 0 [[0, 1], [2, 3]] Map.empty)"
    unfolding ids_ex by simp
  show ?thesis
    using a degenerate_layers_add_nothing
      [where layer = "[5]" and ids = "ids_layers 0 [[0, 1], [2, 3]] Map.empty" and model = initial_model]
      degenerate_layers_add_nothing
      [where layer = "[0, 1]" and ids = "ids_layers 0 [[0, 1], [2, 3]] Map.empty"
         and model = initial_model and children = "\<lambda>n. []"]
    by simp
qed

subsection \<open>The optimal operator returns on every layering with adjacent edges\<close>

text \<open>
  Every node of the layers has an identifier, the sort of a layer compares only its nodes, and
  every pair variable that \<open>perms\<close> and \<open>cross\<close> write to has been created before: no
  lookup of the call is \<open>undefined\<close>.
\<close>

lemma sort_insert_defined:
  "\<forall>t \<in> set rs. \<exists>v. cmp t x = Inr v \<Longrightarrow> \<exists>rs'. sort_insert cmp x rs = Inr rs'"
proof (induction rs)
  case Nil
  show ?case by simp
next
  case (Cons t rs)
  from Cons.prems obtain v where v: "cmp t x = Inr v" by auto
  from Cons.IH Cons.prems obtain rs' where "sort_insert cmp x rs = Inr rs'" by auto
  with v show ?case by simp
qed

lemma foldE_sort_insert_defined:
  "\<forall>a \<in> set xs \<union> set acc. \<forall>b \<in> set xs \<union> set acc. \<exists>v. cmp a b = Inr v \<Longrightarrow>
   \<exists>acc'. foldE (sort_insert cmp) xs acc = Inr acc'"
proof (induction xs arbitrary: acc)
  case Nil
  show ?case by simp
next
  case (Cons x xs)
  from Cons.prems have "\<forall>t \<in> set acc. \<exists>v. cmp t x = Inr v" by simp
  then have "\<exists>rs'. sort_insert cmp x acc = Inr rs'" by (rule sort_insert_defined)
  then obtain acc1 where 1: "sort_insert cmp x acc = Inr acc1"
    by blast
  from sort_insert_mset [OF 1] have "set acc1 = insert x (set acc)"
    by (metis set_mset_add_mset_insert set_mset_mset)
  with Cons.prems have "\<forall>a \<in> set xs \<union> set acc1. \<forall>b \<in> set xs \<union> set acc1. \<exists>v. cmp a b = Inr v"
    by simp
  from Cons.IH [OF this] 1 show ?case by simp
qed

lemma array_sort_defined:
  "\<forall>a \<in> set xs. \<forall>b \<in> set xs. \<exists>v. cmp a b = Inr v \<Longrightarrow> \<exists>ys. array_sort cmp xs = Inr ys"
  using foldE_sort_insert_defined [of xs "[]" cmp] by (auto simp: array_sort_def)

lemma opt_comp_defined:
  "a \<in> dom ids \<Longrightarrow> b \<in> dom ids \<Longrightarrow> \<exists>c. opt_comp ids a b = Inr c"
  by (auto simp: opt_comp_def def_def)

lemma ids_layer_dom: "dom (ids_layer i j layer ids) = dom ids \<union> set layer"
  by (induction layer arbitrary: j ids) auto

lemma ids_layers_dom: "dom (ids_layers i layers ids) = dom ids \<union> set (concat layers)"
  by (induction layers arbitrary: i ids) (auto simp: ids_layer_dom)

text \<open>The comparison of two strings is antisymmetric, so a key does not depend on the order of two nodes.\<close>

lemma localeCompare_flip: "localeCompare b a = - localeCompare a b"
  by (induction a b rule: localeCompare.induct) auto

lemma key_pair_commute: "key ids [a, b] = key ids [b, a]"
proof (cases "ids a")
  case None
  then show ?thesis
    by (cases "ids b") (simp_all add: key_def def_def)
next
  case (Some s)
  show ?thesis
  proof (cases "ids b")
    case None
    with Some show ?thesis by (simp add: key_def def_def)
  next
    case (Some t)
    have "localeCompare s t = 0 \<Longrightarrow> s = t"
      by (induction s t rule: localeCompare.induct) (auto split: if_splits)
    with localeCompare_flip [of t s] \<open>ids a = Some s\<close> Some show ?thesis
      by (auto simp: key_def def_def array_sort_def)
  qed
qed

lemma edges_adjacent_nth:
  "edges_adjacent children layers \<longleftrightarrow>
     (\<forall>k. Suc k < length layers \<longrightarrow>
        (\<forall>p \<in> set (layers ! k). set (children p) \<subseteq> set (layers ! Suc k)))"
proof (induction children layers rule: edges_adjacent.induct)
  case (1 children layer lower rest)
  have "(\<forall>k. Suc k < length (layer # lower # rest) \<longrightarrow>
        (\<forall>p \<in> set ((layer # lower # rest) ! k). set (children p) \<subseteq> set ((layer # lower # rest) ! Suc k))) \<longleftrightarrow>
      (\<forall>p \<in> set layer. set (children p) \<subseteq> set lower) \<and>
      (\<forall>k. Suc k < length (lower # rest) \<longrightarrow>
        (\<forall>p \<in> set ((lower # rest) ! k). set (children p) \<subseteq> set ((lower # rest) ! Suc k)))"
    (is "(\<forall>k. ?P k) \<longleftrightarrow> ?A \<and> (\<forall>k. ?Q k)")
  proof
    assume all: "\<forall>k. ?P k"
    from all [rule_format, of 0] have ?A by simp
    moreover have "?Q k" for k using all [rule_format, of "Suc k"] by simp
    ultimately show "?A \<and> (\<forall>k. ?Q k)" by blast
  next
    assume r: "?A \<and> (\<forall>k. ?Q k)"
    show "\<forall>k. ?P k"
    proof
      fix k
      show "?P k"
      proof (cases k)
        case 0
        with r show ?thesis by simp
      next
        case (Suc k')
        with r [THEN conjunct2, rule_format, of k'] show ?thesis by simp
      qed
    qed
  qed
  with 1 show ?case by simp
qed simp_all

lemma foldE_var_names:
  assumes "\<And>x s. x \<in> set xs \<Longrightarrow> V \<subseteq> var_names s \<Longrightarrow> \<exists>s'. f x s = Inr s' \<and> var_names s \<union> g x \<subseteq> var_names s'"
    and "V \<subseteq> var_names s"
  shows "\<exists>s'. foldE f xs s = Inr s' \<and> var_names s \<union> (\<Union>x \<in> set xs. g x) \<subseteq> var_names s'"
  using assms
proof (induction xs arbitrary: s)
  case Nil
  show ?case by simp
next
  case (Cons x xs)
  from Cons.prems(1) [of x s] Cons.prems(2)
  obtain s1 where 1: "f x s = Inr s1" "var_names s \<union> g x \<subseteq> var_names s1" by auto
  with Cons.prems(2) have V: "V \<subseteq> var_names s1" by blast
  have "\<exists>s'. foldE f xs s1 = Inr s' \<and> var_names s1 \<union> (\<Union>x \<in> set xs. g x) \<subseteq> var_names s'"
    by (rule Cons.IH [OF _ V]) (rule Cons.prems(1), simp_all)
  then obtain s' where "foldE f xs s1 = Inr s'" "var_names s1 \<union> (\<Union>x \<in> set xs. g x) \<subseteq> var_names s'"
    by blast
  with 1 show ?case by auto
qed

lemma set_coef_var_names:
  "v \<in> var_names m \<Longrightarrow> \<exists>m'. set_coef v a k m = Inr m' \<and> var_names m' = var_names m"
proof -
  assume v: "v \<in> var_names m"
  then obtain row where "map_of (variables m) v = Some row"
    by (metis var_names_def map_of_eq_None_iff not_Some_eq)
  with v show ?thesis
    by (auto simp: set_coef_def var_names_def dom_update)
qed

lemma constraints_var_names [simp]: "var_names (m\<lparr>constraints := c\<rparr>) = var_names m"
  by (simp add: var_names_def)

lemma add_pair_var_names:
  assumes "a \<in> dom ids" "b \<in> dom ids"
  shows "\<exists>m'. add_pair ids a b m = Inr m' \<and> var_names m \<union> {k. key ids [a, b] = Inr k} \<subseteq> var_names m'"
proof -
  from assms obtain k where "key ids [a, b] = Inr k"
    using key_defined [of "[a, b]" ids] by auto
  then show ?thesis
    by (auto simp: add_pair_def var_names_def dom_update)
qed

lemma add_triangle_var_names:
  assumes "a \<in> dom ids" "b \<in> dom ids" "c \<in> dom ids"
    and "{k. key ids [a, b] = Inr k} \<subseteq> var_names m"
    and "{k. key ids [a, c] = Inr k} \<subseteq> var_names m"
    and "{k. key ids [b, c] = Inr k} \<subseteq> var_names m"
  shows "\<exists>m'. add_triangle ids a b c m = Inr m' \<and> var_names m' = var_names m"
proof -
  from assms(1,2) obtain k1 where k1: "key ids [a, b] = Inr k1"
    using key_defined [of "[a, b]" ids] by auto
  from assms(1,3) obtain k2 where k2: "key ids [a, c] = Inr k2"
    using key_defined [of "[a, c]" ids] by auto
  from assms(2,3) obtain k3 where k3: "key ids [b, c] = Inr k3"
    using key_defined [of "[b, c]" ids] by auto
  from assms(1,2,3) obtain t where t: "key ids [a, b, c] = Inr t"
    using key_defined [of "[a, b, c]" ids] by auto
  from k1 k2 k3 assms(4-6) have in0: "k1 \<in> var_names m" "k2 \<in> var_names m" "k3 \<in> var_names m" by auto
  define m1 where "m1 = m\<lparr>constraints :=
         AList.update (t @ ''+'') \<lparr>min_bound = None, max_bound = Some 1\<rparr> (constraints m)\<rparr>"
  have v1: "var_names m1 = var_names m" by (simp add: m1_def)
  from in0 v1 obtain m2 where m2: "set_coef k1 (t @ ''+'') 1 m1 = Inr m2" "var_names m2 = var_names m"
    using set_coef_var_names [of k1 m1 "t @ ''+''" "1"] by auto
  with in0 obtain m3 where m3: "set_coef k2 (t @ ''+'') (- 1) m2 = Inr m3" "var_names m3 = var_names m"
    using set_coef_var_names [of k2 m2 "t @ ''+''" "- 1"] by auto
  with in0 obtain m4 where m4: "set_coef k3 (t @ ''+'') 1 m3 = Inr m4" "var_names m4 = var_names m"
    using set_coef_var_names [of k3 m3 "t @ ''+''" "1"] by auto
  define m5 where "m5 = m4\<lparr>constraints :=
         AList.update (t @ ''-'') \<lparr>min_bound = Some 0, max_bound = None\<rparr> (constraints m4)\<rparr>"
  from m4 have v5: "var_names m5 = var_names m" by (simp add: m5_def)
  with in0 obtain m6 where m6: "set_coef k1 (t @ ''-'') 1 m5 = Inr m6" "var_names m6 = var_names m"
    using set_coef_var_names [of k1 m5 "t @ ''-''" "1"] by auto
  with in0 obtain m7 where m7: "set_coef k2 (t @ ''-'') (- 1) m6 = Inr m7" "var_names m7 = var_names m"
    using set_coef_var_names [of k2 m6 "t @ ''-''" "- 1"] by auto
  with in0 obtain m8 where m8: "set_coef k3 (t @ ''-'') 1 m7 = Inr m8" "var_names m8 = var_names m"
    using set_coef_var_names [of k3 m7 "t @ ''-''" "1"] by auto
  from k1 k2 k3 t m2(1) m3(1) m4(1) m6(1) m7(1) m8
  show ?thesis
    by (simp add: add_triangle_def Let_def m1_def [symmetric] m5_def [symmetric])
qed

lemma add_slack_var_names:
  assumes "c1 \<in> dom ids" "c2 \<in> dom ids" "pairp \<in> var_names m"
    and "c1 \<noteq> c2 \<Longrightarrow> {k. key ids [c1, c2] = Inr k} \<subseteq> var_names m"
  shows "\<exists>m'. add_slack ids pairp c1 c2 m = Inr m' \<and> var_names m \<subseteq> var_names m'"
proof (cases "c1 = c2")
  case True
  then show ?thesis by (simp add: add_slack_def)
next
  case False
  from assms(1,2) obtain pairc where k: "key ids [c1, c2] = Inr pairc"
    using key_defined [of "[c1, c2]" ids] by auto
  with assms(4) False have pc: "pairc \<in> var_names m" by auto
  from assms(1,2) obtain sign where sg: "opt_comp ids c1 c2 = Inr sign"
    using opt_comp_defined by blast
  define slack where "slack = ''slack ('' @ pairp @ '') ('' @ pairc @ '')''"
  define m1 where "m1 = m\<lparr>variables :=
            AList.update slack [(''opt'', 1), (slack @ '' +'', 1), (slack @ '' -'', 1)] (variables m)\<rparr>"
  have v1: "var_names m1 = insert slack (var_names m)"
    by (simp add: m1_def var_names_def dom_update)
  define m2 where "m2 = m1\<lparr>constraints :=
              AList.update (slack @ '' +'') \<lparr>min_bound = Some (real_of_int (max sign 0)), max_bound = None\<rparr>
                (constraints m1)\<rparr>"
  have v2: "var_names m2 = insert slack (var_names m)" by (simp add: m2_def v1)
  with assms(3) obtain m3 where m3: "set_coef pairp (slack @ '' +'') 1 m2 = Inr m3"
    "var_names m3 = insert slack (var_names m)"
    using set_coef_var_names [of pairp m2 "slack @ '' +''" "1"] by auto
  with pc obtain m4 where m4: "set_coef pairc (slack @ '' +'') (real_of_int sign) m3 = Inr m4"
    "var_names m4 = insert slack (var_names m)"
    using set_coef_var_names [of pairc m3 "slack @ '' +''" "real_of_int sign"] by auto
  define m5 where "m5 = m4\<lparr>constraints :=
              AList.update (slack @ '' -'') \<lparr>min_bound = Some (real_of_int (- max sign 0)), max_bound = None\<rparr>
                (constraints m4)\<rparr>"
  from m4 have v5: "var_names m5 = insert slack (var_names m)" by (simp add: m5_def)
  with assms(3) obtain m6 where m6: "set_coef pairp (slack @ '' -'') (- 1) m5 = Inr m6"
    "var_names m6 = insert slack (var_names m)"
    using set_coef_var_names [of pairp m5 "slack @ '' -''" "- 1"] by auto
  with pc obtain m7 where m7: "set_coef pairc (slack @ '' -'') (real_of_int (- sign)) m6 = Inr m7"
    "var_names m7 = insert slack (var_names m)"
    using set_coef_var_names [of pairc m6 "slack @ '' -''" "real_of_int (- sign)"] by auto
  from m3(1) m4(1) m6(1) m7(1) have "add_slack ids pairp c1 c2 m = Inr m7"
    unfolding m5_def m2_def m1_def slack_def add_slack_def Let_def
    by (simp only: False if_False k sg bindE.simps)
  with m7(2) show ?thesis by auto
qed

lemma foldE_mono:
  assumes "\<And>x s. x \<in> set xs \<Longrightarrow> V \<subseteq> var_names s \<Longrightarrow> \<exists>s'. f x s = Inr s' \<and> var_names s \<subseteq> var_names s'"
    and "V \<subseteq> var_names s"
  shows "\<exists>s'. foldE f xs s = Inr s' \<and> var_names s \<subseteq> var_names s'"
  using foldE_var_names [of xs V f "\<lambda>x. {}" s] assms by simp

lemma nth_dom: "set layer \<subseteq> dom ids \<Longrightarrow> i < length layer \<Longrightarrow> layer ! i \<in> dom ids"
  by (meson nth_mem subsetD)

lemma pair_keys_nth:
  "i < j \<Longrightarrow> j < length layer \<Longrightarrow> {k. key ids [layer ! i, layer ! j] = Inr k} \<subseteq> pair_keys ids layer"
  unfolding pair_keys_def by blast

lemma pair_keys_member:
  assumes "a \<in> set layer" "b \<in> set layer" "a \<noteq> b"
  shows "{k. key ids [a, b] = Inr k} \<subseteq> pair_keys ids layer"
proof -
  from assms(1) obtain i where i: "i < length layer" "layer ! i = a"
    by (auto simp: in_set_conv_nth)
  from assms(2) obtain j where j: "j < length layer" "layer ! j = b"
    by (auto simp: in_set_conv_nth)
  from i j assms(3) have "i \<noteq> j" by auto
  then have "i < j \<or> j < i" by arith
  then show ?thesis
  proof
    assume "i < j"
    with i j show ?thesis by (auto simp: pair_keys_def)
  next
    assume "j < i"
    with i j key_pair_commute [of ids a b] show ?thesis
      by (auto simp: pair_keys_def)
  qed
qed

lemma enumerate_take_nth:
  "(i, n1) \<in> set (enumerate 0 (take (length layer - 1) layer)) \<longleftrightarrow>
     Suc i < length layer \<and> n1 = layer ! i"
  by (auto simp: in_set_enumerate_eq)

lemma in_drop_nth: "x \<in> set (drop d xs) \<longleftrightarrow> (\<exists>j. d \<le> j \<and> j < length xs \<and> xs ! j = x)"
proof
  assume "x \<in> set (drop d xs)"
  then obtain l where "l < length xs - d" "drop d xs ! l = x"
    by (auto simp: in_set_conv_nth)
  then have "d \<le> d + l \<and> d + l < length xs \<and> xs ! (d + l) = x" by auto
  then show "\<exists>j. d \<le> j \<and> j < length xs \<and> xs ! j = x" by blast
next
  assume "\<exists>j. d \<le> j \<and> j < length xs \<and> xs ! j = x"
  then obtain j where j: "d \<le> j" "j < length xs" "xs ! j = x" by blast
  then have "drop d xs ! (j - d) = x" "j - d < length (drop d xs)" by auto
  then show "x \<in> set (drop d xs)" by (metis nth_mem)
qed

lemma perms_pairs_var_names:
  assumes dom: "set layer \<subseteq> dom ids"
  shows "\<exists>m'. perms_pairs ids layer m = Inr m' \<and> var_names m \<union> pair_keys ids layer \<subseteq> var_names m'"
proof -
  define g where "g = (\<lambda>(i, n1). \<Union>n2 \<in> set (drop (i + 1) layer). {k. key ids [n1 :: nat, n2] = Inr k})"
  define f where "f = (\<lambda>(i, n1). foldE (\<lambda>n2. add_pair ids n1 n2) (drop (i + 1) layer))"
  have step: "\<exists>s'. f x s = Inr s' \<and> var_names s \<union> g x \<subseteq> var_names s'"
    if x: "x \<in> set (enumerate 0 (take (length layer - 1) layer))" for x s
  proof -
    obtain i n1 where xe: "x = (i, n1)" by (cases x)
    from x [unfolded xe enumerate_take_nth] have n1: "Suc i < length layer" "n1 = layer ! i"
      by simp_all
    with nth_dom [OF dom, of i] have d1: "n1 \<in> dom ids" by simp
    have "\<exists>s'. foldE (\<lambda>n2. add_pair ids n1 n2) (drop (i + 1) layer) s = Inr s' \<and>
        var_names s \<union> (\<Union>n2 \<in> set (drop (i + 1) layer). {k. key ids [n1, n2] = Inr k}) \<subseteq> var_names s'"
    proof (rule foldE_var_names [where V = "{}"])
      fix n2 s0
      assume "n2 \<in> set (drop (i + 1) layer)"
      then have "n2 \<in> set layer" by (rule in_set_dropD)
      with dom have "n2 \<in> dom ids" by auto
      with d1 show "\<exists>s'. add_pair ids n1 n2 s0 = Inr s' \<and> var_names s0 \<union> {k. key ids [n1, n2] = Inr k} \<subseteq> var_names s'"
        by (rule add_pair_var_names)
    qed simp
    with xe show ?thesis by (simp add: f_def g_def)
  qed
  have "\<exists>s'. foldE f (enumerate 0 (take (length layer - 1) layer)) m = Inr s' \<and>
      var_names m \<union> (\<Union>x \<in> set (enumerate 0 (take (length layer - 1) layer)). g x) \<subseteq> var_names s'"
    by (rule foldE_var_names [where V = "{}"]) (rule step, simp_all)
  then obtain m' where m': "foldE f (enumerate 0 (take (length layer - 1) layer)) m = Inr m'"
    "var_names m \<union> (\<Union>x \<in> set (enumerate 0 (take (length layer - 1) layer)). g x) \<subseteq> var_names m'"
    by blast
  have "pair_keys ids layer \<subseteq> (\<Union>x \<in> set (enumerate 0 (take (length layer - 1) layer)). g x)"
  proof
    fix k
    assume "k \<in> pair_keys ids layer"
    then obtain i j where ij: "i < j" "j < length layer" "key ids [layer ! i, layer ! j] = Inr k"
      by (auto simp: pair_keys_def)
    then have "Suc i < length layer \<and> layer ! i = layer ! i" by simp
    then have "(i, layer ! i) \<in> set (enumerate 0 (take (length layer - 1) layer))"
      unfolding enumerate_take_nth .
    moreover from ij have "i + 1 \<le> j \<and> j < length layer \<and> layer ! j = layer ! j" by simp
    then have "layer ! j \<in> set (drop (i + 1) layer)"
      unfolding in_drop_nth by blast
    with ij have "k \<in> g (i, layer ! i)" by (auto simp: g_def)
    ultimately show "k \<in> (\<Union>x \<in> set (enumerate 0 (take (length layer - 1) layer)). g x)"
      by blast
  qed
  with m' show ?thesis by (auto simp: perms_pairs_def f_def)
qed

lemma perms_triangles_var_names:
  assumes dom: "set layer \<subseteq> dom ids" and pk: "pair_keys ids layer \<subseteq> var_names m"
  shows "\<exists>m'. perms_triangles ids layer m = Inr m' \<and> var_names m \<subseteq> var_names m'"
  unfolding perms_triangles_def
proof (rule foldE_mono [where V = "pair_keys ids layer", OF _ pk])
  fix x s
  assume x: "x \<in> set (enumerate 0 (take (length layer - 1) layer))"
    and V: "pair_keys ids layer \<subseteq> var_names s"
  obtain i n1 where xe: "x = (i, n1)" by (cases x)
  from x [unfolded xe enumerate_take_nth] have n1: "Suc i < length layer" "n1 = layer ! i"
    by simp_all
  have "\<exists>s'. foldE (\<lambda>(j, n2). foldE (\<lambda>n3. add_triangle ids n1 n2 n3) (drop (i + j + 2) layer))
           (enumerate 0 (drop (i + 1) layer)) s = Inr s' \<and> var_names s \<subseteq> var_names s'"
  proof (rule foldE_mono [where V = "pair_keys ids layer", OF _ V])
    fix y s1
    assume y: "y \<in> set (enumerate 0 (drop (i + 1) layer))"
      and V1: "pair_keys ids layer \<subseteq> var_names s1"
    obtain j n2 where ye: "y = (j, n2)" by (cases y)
    with y have n2: "i + 1 + j < length layer" "n2 = layer ! (i + 1 + j)"
      by (auto simp: in_set_enumerate_eq)
    have "\<exists>s'. foldE (\<lambda>n3. add_triangle ids n1 n2 n3) (drop (i + j + 2) layer) s1 = Inr s' \<and>
        var_names s1 \<subseteq> var_names s'"
    proof (rule foldE_mono [where V = "pair_keys ids layer", OF _ V1])
      fix n3 s2
      assume "n3 \<in> set (drop (i + j + 2) layer)" and V2: "pair_keys ids layer \<subseteq> var_names s2"
      then obtain l where l: "i + j + 2 \<le> l" "l < length layer" "layer ! l = n3"
        by (auto simp: in_drop_nth)
      from n1 n2 l nth_dom [OF dom, of i] nth_dom [OF dom, of "i + 1 + j"] nth_dom [OF dom, of l]
      have d: "n1 \<in> dom ids" "n2 \<in> dom ids" "n3 \<in> dom ids"
        by simp_all
      from n1 n2 pair_keys_nth [of i "i + 1 + j" layer ids]
      have "{k. key ids [n1, n2] = Inr k} \<subseteq> pair_keys ids layer" by simp
      with V2 have k1: "{k. key ids [n1, n2] = Inr k} \<subseteq> var_names s2" by blast
      from n1 l pair_keys_nth [of i l layer ids]
      have "{k. key ids [n1, n3] = Inr k} \<subseteq> pair_keys ids layer" by simp
      with V2 have k2: "{k. key ids [n1, n3] = Inr k} \<subseteq> var_names s2" by blast
      from n2 l pair_keys_nth [of "i + 1 + j" l layer ids]
      have "{k. key ids [n2, n3] = Inr k} \<subseteq> pair_keys ids layer" by simp
      with V2 have k3: "{k. key ids [n2, n3] = Inr k} \<subseteq> var_names s2" by blast
      from add_triangle_var_names [OF d k1 k2 k3]
      show "\<exists>s'. add_triangle ids n1 n2 n3 s2 = Inr s' \<and> var_names s2 \<subseteq> var_names s'" by auto
    qed
    with ye show "\<exists>s'. (case y of (j, n2) \<Rightarrow> foldE (\<lambda>n3. add_triangle ids n1 n2 n3) (drop (i + j + 2) layer)) s1 = Inr s' \<and>
        var_names s1 \<subseteq> var_names s'"
      by simp
  qed
  with xe show "\<exists>s'. (case x of (i, n1) \<Rightarrow>
         foldE (\<lambda>(j, n2). foldE (\<lambda>n3. add_triangle ids n1 n2 n3) (drop (i + j + 2) layer))
           (enumerate 0 (drop (i + 1) layer))) s = Inr s' \<and> var_names s \<subseteq> var_names s'"
    by simp
qed

lemma perms_var_names:
  assumes dom: "set layer \<subseteq> dom ids"
  shows "\<exists>m' layer'. perms ids m layer = (Inr m', layer') \<and>
     var_names m \<union> pair_keys ids layer' \<subseteq> var_names m'"
proof -
  have "\<forall>a \<in> set layer. \<forall>b \<in> set layer.
      \<exists>v. map_sum id real_of_int (opt_comp ids a b) = Inr v"
  proof (intro ballI)
    fix a b
    assume "a \<in> set layer" "b \<in> set layer"
    with dom have "a \<in> dom ids" "b \<in> dom ids" by auto
    then obtain c where "opt_comp ids a b = Inr c"
      using opt_comp_defined by blast
    then show "\<exists>v. map_sum id real_of_int (opt_comp ids a b) = Inr v" by simp
  qed
  then obtain layer' where
    s: "array_sort (\<lambda>n1 n2. map_sum id real_of_int (opt_comp ids n1 n2)) layer = Inr layer'"
    using array_sort_defined [of layer "\<lambda>n1 n2. map_sum id real_of_int (opt_comp ids n1 n2)"]
    by blast
  from array_sort_mset [OF s] have "set layer' = set layer" by (rule mset_eq_setD)
  with dom have dom': "set layer' \<subseteq> dom ids" by simp
  from perms_pairs_var_names [OF dom', of m] obtain m1 where
    m1: "perms_pairs ids layer' m = Inr m1" "var_names m \<union> pair_keys ids layer' \<subseteq> var_names m1"
    by blast
  then have "pair_keys ids layer' \<subseteq> var_names m1" by blast
  from perms_triangles_var_names [OF dom' this] obtain m2 where
    m2: "perms_triangles ids layer' m1 = Inr m2" "var_names m1 \<subseteq> var_names m2"
    by blast
  from s m1 m2 show ?thesis by (auto simp: perms_def)
qed

lemma perms_all_var_names:
  assumes "set (concat layers) \<subseteq> dom ids"
  shows "\<exists>m' layers1. perms_all ids m layers = (Inr m', layers1) \<and> var_names m \<subseteq> var_names m' \<and>
     (\<forall>l \<in> set layers1. pair_keys ids l \<subseteq> var_names m')"
  using assms
proof (induction layers arbitrary: m)
  case Nil
  show ?case by simp
next
  case (Cons layer rest)
  from Cons.prems have "set layer \<subseteq> dom ids" by simp
  from perms_var_names [OF this, of m] obtain m1 layer1 where
    p: "perms ids m layer = (Inr m1, layer1)" "var_names m \<union> pair_keys ids layer1 \<subseteq> var_names m1"
    by blast
  from Cons.prems have "set (concat rest) \<subseteq> dom ids" by simp
  from Cons.IH [OF this, of m1] obtain m2 rest1 where
    q: "perms_all ids m1 rest = (Inr m2, rest1)" "var_names m1 \<subseteq> var_names m2"
      "\<forall>l \<in> set rest1. pair_keys ids l \<subseteq> var_names m2"
    by blast
  from p q show ?case by auto
qed

lemma cross_var_names:
  assumes dom: "set layer \<subseteq> dom ids" and dom': "set next \<subseteq> dom ids"
    and ch: "\<forall>p \<in> set layer. set (children p) \<subseteq> set next"
    and pk: "pair_keys ids layer \<union> pair_keys ids next \<subseteq> var_names m"
  shows "\<exists>m'. cross ids children layer m = Inr m' \<and> var_names m \<subseteq> var_names m'"
  unfolding cross_def
proof (rule foldE_mono [where V = "pair_keys ids layer \<union> pair_keys ids next", OF _ pk])
  fix x s
  assume x: "x \<in> set (enumerate 0 (take (length layer - 1) layer))"
    and V: "pair_keys ids layer \<union> pair_keys ids next \<subseteq> var_names s"
  obtain i p1 where xe: "x = (i, p1)" by (cases x)
  from x [unfolded xe enumerate_take_nth] have p1: "Suc i < length layer" "p1 = layer ! i"
    by simp_all
  then have p1in: "p1 \<in> set layer" by simp
  have "\<exists>s'. foldE (\<lambda>p2 model.
             bindE (key ids [p1, p2]) (\<lambda>pairp.
               foldE (\<lambda>c1. foldE (\<lambda>c2. add_slack ids pairp c1 c2) (children p2))
                 (children p1) model))
           (drop (i + 1) layer) s = Inr s' \<and> var_names s \<subseteq> var_names s'"
  proof (rule foldE_mono [where V = "pair_keys ids layer \<union> pair_keys ids next", OF _ V])
    fix p2 s1
    assume "p2 \<in> set (drop (i + 1) layer)"
      and V1: "pair_keys ids layer \<union> pair_keys ids next \<subseteq> var_names s1"
    then obtain j where j: "i + 1 \<le> j" "j < length layer" "layer ! j = p2"
      by (auto simp: in_drop_nth)
    then have p2in: "p2 \<in> set layer" by auto
    from p1in p2in dom obtain pairp where pairp: "key ids [p1, p2] = Inr pairp"
      using key_defined [of "[p1, p2]" ids] by auto
    from p1 j pair_keys_nth [of i j layer ids] pairp have "pairp \<in> pair_keys ids layer"
      by auto
    have "\<exists>s'. foldE (\<lambda>c1. foldE (\<lambda>c2. add_slack ids pairp c1 c2) (children p2))
                 (children p1) s1 = Inr s' \<and> var_names s1 \<subseteq> var_names s'"
    proof (rule foldE_mono [where V = "pair_keys ids layer \<union> pair_keys ids next", OF _ V1])
      fix c1 s2
      assume c1: "c1 \<in> set (children p1)"
        and V2: "pair_keys ids layer \<union> pair_keys ids next \<subseteq> var_names s2"
      from c1 ch p1in have c1in: "c1 \<in> set next" by auto
      show "\<exists>s'. foldE (\<lambda>c2. add_slack ids pairp c1 c2) (children p2) s2 = Inr s' \<and>
          var_names s2 \<subseteq> var_names s'"
      proof (rule foldE_mono [where V = "pair_keys ids layer \<union> pair_keys ids next", OF _ V2])
        fix c2 s3
        assume c2: "c2 \<in> set (children p2)"
          and V3: "pair_keys ids layer \<union> pair_keys ids next \<subseteq> var_names s3"
        from c2 ch p2in have c2in: "c2 \<in> set next" by auto
        from c1in c2in dom' have d: "c1 \<in> dom ids" "c2 \<in> dom ids" by auto
        from \<open>pairp \<in> pair_keys ids layer\<close> V3 have pp: "pairp \<in> var_names s3" by auto
        have "{k. key ids [c1, c2] = Inr k} \<subseteq> var_names s3" if "c1 \<noteq> c2"
          using pair_keys_member [OF c1in c2in that, of ids] V3 by blast
        with d pp show "\<exists>s'. add_slack ids pairp c1 c2 s3 = Inr s' \<and> var_names s3 \<subseteq> var_names s'"
          by (rule add_slack_var_names)
      qed
    qed
    with pairp show "\<exists>s'. bindE (key ids [p1, p2]) (\<lambda>pairp.
               foldE (\<lambda>c1. foldE (\<lambda>c2. add_slack ids pairp c1 c2) (children p2))
                 (children p1) s1) = Inr s' \<and> var_names s1 \<subseteq> var_names s'"
      by simp
  qed
  with xe show "\<exists>s'. (case x of (i, p1) \<Rightarrow>
         foldE (\<lambda>p2 model.
             bindE (key ids [p1, p2]) (\<lambda>pairp.
               foldE (\<lambda>c1. foldE (\<lambda>c2. add_slack ids pairp c1 c2) (children p2))
                 (children p1) model))
           (drop (i + 1) layer)) s = Inr s' \<and> var_names s \<subseteq> var_names s'"
    by simp
qed

lemma cross_all_var_names:
  assumes dom: "\<forall>l \<in> set layers1. set l \<subseteq> dom ids"
    and pk: "\<forall>l \<in> set layers1. pair_keys ids l \<subseteq> var_names m"
    and adj: "edges_adjacent children layers1"
  shows "\<exists>m'. foldE (cross ids children) (take (length layers1 - 1) layers1) m = Inr m'"
proof -
  from pk have V: "(\<Union>l \<in> set layers1. pair_keys ids l) \<subseteq> var_names m" by blast
  have "\<exists>s'. foldE (cross ids children) (take (length layers1 - 1) layers1) m = Inr s' \<and>
      var_names m \<subseteq> var_names s'"
  proof (rule foldE_mono [where V = "\<Union>l \<in> set layers1. pair_keys ids l", OF _ V])
    fix layer s
    assume "layer \<in> set (take (length layers1 - 1) layers1)"
      and Vs: "(\<Union>l \<in> set layers1. pair_keys ids l) \<subseteq> var_names s"
    then obtain k where k: "k < length layers1 - 1" "layer = layers1 ! k"
      by (auto simp: in_set_conv_nth)
    then have k': "Suc k < length layers1" by simp
    then have mem: "layer \<in> set layers1" "layers1 ! Suc k \<in> set layers1"
      using k by simp_all
    from adj k' k have ch: "\<forall>p \<in> set layer. set (children p) \<subseteq> set (layers1 ! Suc k)"
      by (simp add: edges_adjacent_nth)
    from mem Vs have "pair_keys ids layer \<union> pair_keys ids (layers1 ! Suc k) \<subseteq> var_names s" by blast
    with mem dom ch show "\<exists>s'. cross ids children layer s = Inr s' \<and> var_names s \<subseteq> var_names s'"
      by (intro cross_var_names [where ?next = "layers1 ! Suc k"]) auto
  qed
  then show ?thesis by blast
qed

lemma final_cmp_defined:
  "a \<in> dom ids \<Longrightarrow> b \<in> dom ids \<Longrightarrow> \<exists>v. final_cmp ids solution a b = Inr v"
proof -
  assume d: "a \<in> dom ids" "b \<in> dom ids"
  then obtain c where c: "opt_comp ids a b = Inr c" using opt_comp_defined by blast
  from d obtain k where "key ids [a, b] = Inr k" using key_defined [of "[a, b]" ids] by auto
  with c show ?thesis by (simp add: final_cmp_def)
qed

lemma sort_layers_defined:
  "\<forall>l \<in> set layers1. set l \<subseteq> dom ids \<Longrightarrow> fst (sort_layers ids solution layers1) = None"
proof (induction layers1)
  case Nil
  show ?case by simp
next
  case (Cons layer rest)
  then have "\<forall>a \<in> set layer. \<forall>b \<in> set layer. \<exists>v. final_cmp ids solution a b = Inr v"
    by (auto intro!: final_cmp_defined)
  then obtain layer' where "array_sort (final_cmp ids solution) layer = Inr layer'"
    using array_sort_defined [of layer "final_cmp ids solution"] by blast
  moreover from Cons have "fst (sort_layers ids solution rest) = None" by simp
  ultimately show ?case
    by (cases "sort_layers ids solution rest") simp
qed

lemma edges_adjacent_mset:
  assumes "map mset layers1 = map mset layers" "edges_adjacent children layers"
  shows "edges_adjacent children layers1"
proof -
  from assms(1) have len: "length layers1 = length layers" by (rule map_eq_imp_length_eq)
  have eq: "set (layers1 ! k) = set (layers ! k)" if "k < length layers" for k
  proof -
    from that len assms(1) have "mset (layers1 ! k) = mset (layers ! k)"
      by (metis nth_map)
    then show ?thesis by (rule mset_eq_setD)
  qed
  show ?thesis
    unfolding edges_adjacent_nth
  proof (intro allI impI)
    fix k
    assume k: "Suc k < length layers1"
    with len eq [of k] eq [of "Suc k"] assms(2)
    show "\<forall>p \<in> set (layers1 ! k). set (children p) \<subseteq> set (layers1 ! Suc k)"
      by (simp add: edges_adjacent_nth)
  qed
qed

lemma build_model_defined:
  assumes "edges_adjacent children layers"
  shows "\<exists>model layers1. build_model children layers = (Inr model, layers1) \<and>
     (\<forall>l \<in> set layers1. set l \<subseteq> dom (ids_layers 0 layers Map.empty))"
proof -
  define ids where "ids = ids_layers 0 layers Map.empty"
  have dom: "set (concat layers) \<subseteq> dom ids" by (simp add: ids_def ids_layers_dom)
  from perms_all_var_names [OF this, of initial_model] obtain m1 layers1 where
    p: "perms_all ids initial_model layers = (Inr m1, layers1)"
      "\<forall>l \<in> set layers1. pair_keys ids l \<subseteq> var_names m1"
    by blast
  from perms_all_mset [OF p(1)] have ms: "map mset layers1 = map mset layers" .
  then have "mset (concat layers1) = mset (concat layers)"
    by (metis mset_concat)
  then have "set (concat layers1) = set (concat layers)" by (rule mset_eq_setD)
  with dom have "set (concat layers1) \<subseteq> dom ids" by simp
  then have d1: "\<forall>l \<in> set layers1. set l \<subseteq> dom ids" by auto
  from edges_adjacent_mset [OF ms assms] have "edges_adjacent children layers1" .
  from cross_all_var_names [OF d1 p(2) this] obtain m2 where
    "foldE (cross ids children) (take (length layers1 - 1) layers1) m1 = Inr m2" by blast
  with p(1) d1 show ?thesis
    by (simp add: build_model_def ids_def [symmetric] Let_def)
qed

lemma optCall_returns:
  assumes "edges_adjacent children layers"
    and "clowntown options \<or> foldl (\<lambda>t l. t + length l * length l) 0 layers \<le> 2500"
  shows "fst (optCall options Solve children layers) = None"
proof -
  from build_model_defined [OF assms(1)] obtain model layers1 where
    b: "build_model children layers = (Inr model, layers1)"
      "\<forall>l \<in> set layers1. set l \<subseteq> dom (ids_layers 0 layers Map.empty)"
    by blast
  from sort_layers_defined [OF b(2)] b(1) assms(2) show ?thesis
    by (auto simp: optCall_def)
qed

text \<open>
  C4: on every layering whose edges join adjacent layers and that passes the size guard (or
  with the guard overridden), the call returns without an error; and after the call, however
  it ends, the layer sequence has the same number of layers and each layer holds the same
  nodes with the same multiplicities as before: no node is added, removed or duplicated.
\<close>

theorem optCall_permutes_layers:
  "map mset (snd (optCall options Solve children layers)) = map mset layers \<and>
   (edges_adjacent children layers \<and>
    (clowntown options \<or> foldl (\<lambda>t l. t + length l * length l) 0 layers \<le> 2500) \<longrightarrow>
      fst (optCall options Solve children layers) = None)"
  using optCall_mset [of options Solve children layers]
    optCall_returns [of children layers options Solve]
  by blast

theorem optCall_permutes_layers_witness:
  "edges_adjacent (\<lambda>p. if p = 0 then [3] else if p = 1 then [2] else []) [[0, 1], [2, 3]] \<and>
   foldl (\<lambda>t l. t + length l * length l) 0 [[0, 1], [2, 3 :: nat]] \<le> 2500 \<and>
   fst (optCall \<lparr>clowntown = False\<rparr> (\<lambda>model. Map.empty)
     (\<lambda>p. if p = 0 then [3] else if p = 1 then [2] else []) [[0, 1], [2, 3]]) = None \<and>
   map mset (snd (optCall \<lparr>clowntown = False\<rparr> (\<lambda>model. Map.empty)
     (\<lambda>p. if p = 0 then [3] else if p = 1 then [2] else []) [[0, 1], [2, 3]])) =
     map mset [[0, 1], [2, 3]]"
  using optCall_permutes_layers [of "\<lparr>clowntown = False\<rparr>" "\<lambda>model. Map.empty"
      "\<lambda>p. if p = 0 then [3] else if p = 1 then [2] else []" "[[0, 1], [2, 3]]"]
  by simp


section \<open>Properties of coffmanGrahamCall\<close>

lemma in_edges_simps [simp]:
  "in_edges ch [] n = 0"
  "in_edges ch (p # ps) n = count_list (ch p) n + in_edges ch ps n"
  "in_edges ch (ps @ qs) n = in_edges ch ps n + in_edges ch qs n"
  by (simp_all add: in_edges_def)

lemma push_parent_spec:
  assumes "c \<in> dom data"
  shows "\<exists>data'. push_parent p c data = Inr data' \<and> dom data' = dom data \<and>
           (\<forall>n. before_of data' n = before_of data n) \<and>
           (\<forall>n. parents_of data' n = parents_of data n @ (if n = c then [p] else []))"
proof -
  from assms obtain d where d: "data c = Some d" by blast
  then have "push_parent p c data = Inr (data(c \<mapsto> d\<lparr>parents := parents d @ [p]\<rparr>))"
    by (simp add: push_parent_def def_def)
  moreover from d have "dom (data(c \<mapsto> d\<lparr>parents := parents d @ [p]\<rparr>)) = dom data"
    by auto
  ultimately show ?thesis
    using d by (auto simp: before_of_def parents_of_def)
qed

lemma push_parents_spec:
  "set cs \<subseteq> dom data \<Longrightarrow>
   \<exists>data'. foldE (push_parent p) cs data = Inr data' \<and> dom data' = dom data \<and>
     (\<forall>n. before_of data' n = before_of data n) \<and>
     (\<forall>n. parents_of data' n = parents_of data n @ replicate (count_list cs n) p)"
proof (induction cs arbitrary: data)
  case Nil
  show ?case by simp
next
  case (Cons c cs)
  from Cons.prems have "c \<in> dom data" by simp
  from push_parent_spec [OF this, of p] obtain data1 where
    1: "push_parent p c data = Inr data1" "dom data1 = dom data"
       "\<forall>n. before_of data1 n = before_of data n"
       "\<forall>n. parents_of data1 n = parents_of data n @ (if n = c then [p] else [])"
    by blast
  from Cons.prems 1(2) have "set cs \<subseteq> dom data1" by simp
  from Cons.IH [OF this] obtain data2 where
    2: "foldE (push_parent p) cs data1 = Inr data2" "dom data2 = dom data1"
       "\<forall>n. before_of data2 n = before_of data1 n"
       "\<forall>n. parents_of data2 n = parents_of data1 n @ replicate (count_list cs n) p"
    by blast
  have "\<forall>n. parents_of data2 n = parents_of data n @ replicate (count_list (c # cs) n) p"
    using 1(4) 2(4) by (simp add: replicate_app_Cons_same)
  with 1 2 show ?case by simp
qed

lemma length_all_parents: "length (all_parents ch ps n) = in_edges ch ps n"
  by (induction ps) (simp_all add: all_parents_def)

lemma set_all_parents: "set (all_parents ch ps n) = {p \<in> set ps. n \<in> set (ch p)}"
  by (induction ps) (auto simp: all_parents_def count_list_0_iff)

lemma push_all_parents_spec:
  "\<forall>p \<in> set ps. set (ch p) \<subseteq> dom data \<Longrightarrow>
   \<exists>data'. foldE (\<lambda>node. foldE (push_parent node) (ch node)) ps data = Inr data' \<and>
     dom data' = dom data \<and>
     (\<forall>n. before_of data' n = before_of data n) \<and>
     (\<forall>n. parents_of data' n = parents_of data n @ all_parents ch ps n)"
proof (induction ps arbitrary: data)
  case Nil
  show ?case by (simp add: all_parents_def)
next
  case (Cons p ps)
  from Cons.prems have "set (ch p) \<subseteq> dom data" by simp
  from push_parents_spec [OF this, of p] obtain data1 where
    1: "foldE (push_parent p) (ch p) data = Inr data1" "dom data1 = dom data"
       "\<forall>n. before_of data1 n = before_of data n"
       "\<forall>n. parents_of data1 n = parents_of data n @ replicate (count_list (ch p) n) p"
    by blast
  from Cons.prems 1(2) have "\<forall>q \<in> set ps. set (ch q) \<subseteq> dom data1" by simp
  from Cons.IH [OF this] obtain data2 where
    2: "foldE (\<lambda>node. foldE (push_parent node) (ch node)) ps data1 = Inr data2"
       "dom data2 = dom data1"
       "\<forall>n. before_of data2 n = before_of data1 n"
       "\<forall>n. parents_of data2 n = parents_of data1 n @ all_parents ch ps n"
    by blast
  have "\<forall>n. parents_of data2 n = parents_of data n @ all_parents ch (p # ps) n"
    using 1(4) 2(4) by (simp add: all_parents_def)
  with 1 2 show ?case by simp
qed

lemma init_data_spec:
  assumes "\<forall>n \<in> set (idescendants dag). set (ichildren dag n) \<subseteq> set (idescendants dag)"
  shows "\<exists>data. init_data dag = Inr data \<and> dom data = set (idescendants dag) \<and>
           (\<forall>n. before_of data n = []) \<and>
           (\<forall>n. parents_of data n = all_parents (ichildren dag) (idescendants dag) n)"
proof -
  define data0 where
    "data0 = map_of (map (\<lambda>node. (node, \<lparr>before = [], parents = []\<rparr>)) (idescendants dag))"
  have dom0: "dom data0 = set (idescendants dag)"
    by (simp add: data0_def dom_map_of_conv_image_fst image_image)
  have val0: "data0 n = Some d \<Longrightarrow> d = \<lparr>before = [], parents = []\<rparr>" for n d
    by (auto simp: data0_def dest: map_of_SomeD)
  have b0: "before_of data0 n = []" and p0: "parents_of data0 n = []" for n
    by (auto simp: before_of_def parents_of_def split: option.splits dest: val0)
  from assms dom0 have "\<forall>p \<in> set (idescendants dag). set (ichildren dag p) \<subseteq> dom data0"
    by simp
  from push_all_parents_spec [OF this] obtain data where
    "foldE (\<lambda>node. foldE (push_parent node) (ichildren dag node)) (idescendants dag) data0 = Inr data"
    "dom data = dom data0" "\<forall>n. before_of data n = before_of data0 n"
    "\<forall>n. parents_of data n = parents_of data0 n @ all_parents (ichildren dag) (idescendants dag) n"
    by blast
  then show ?thesis
    using dom0 b0 p0 by (simp add: init_data_def data0_def)
qed

lemma mset_filter_add:
  "distinct xs \<Longrightarrow> c \<in> set xs \<Longrightarrow> \<not> Q c \<Longrightarrow> Q' c \<Longrightarrow> (\<forall>n. n \<noteq> c \<longrightarrow> Q' n = Q n) \<Longrightarrow>
   mset (filter Q' xs) = add_mset c (mset (filter Q xs))"
proof (induction xs)
  case Nil
  then show ?case by simp
next
  case (Cons x xs)
  show ?case
  proof (cases "x = c")
    case True
    with Cons.prems have "c \<notin> set xs" by simp
    with Cons.prems(5) have "filter Q' xs = filter Q xs"
      by (intro filter_cong) auto
    with True Cons.prems show ?thesis by simp
  next
    case False
    with Cons.prems have "mset (filter Q' xs) = add_mset c (mset (filter Q xs))"
      by (intro Cons.IH) auto
    with False Cons.prems(5) show ?thesis by simp
  qed
qed

lemma array_sort_numbers:
  "\<exists>ys. array_sort (\<lambda>a b. Inr (real b - real a)) (xs :: nat list) = Inr ys \<and> length ys = length xs"
proof -
  obtain ys where ys: "array_sort (\<lambda>a b. Inr (real b - real a)) xs = Inr ys"
    using array_sort_pure [of "\<lambda>a b. Inr (real b - real a)" xs] by auto
  from array_sort_mset [OF ys] have "length ys = length xs"
    by (metis size_mset)
  with ys show ?thesis by blast
qed

lemma cg_visit_spec:
  assumes contract: "pq_contract ops contents"
    and N: "distinct N" "dom (st_data st) = set N" "c \<in> set N"
    and room: "length (before_of (st_data st) c) < length (parents_of (st_data st) c)"
    and queue: "contents (st_queue st) = mset (filter (ready P (st_data st)) N)"
    and notP: "c \<notin> set P"
  shows "\<exists>st'. cg_visit ops c st = Inr st' \<and>
     dom (st_data st') = set N \<and>
     (\<forall>n. parents_of (st_data st') n = parents_of (st_data st) n) \<and>
     (\<forall>n. length (before_of (st_data st') n) =
        length (before_of (st_data st) n) + (if n = c then 1 else 0)) \<and>
     contents (st_queue st') = mset (filter (ready P (st_data st')) N) \<and>
     node_layer st' = node_layer st \<and> st_i st' = st_i st \<and>
     st_layer st' = st_layer st \<and> st_width st' = st_width st"
proof -
  from N obtain d where d: "st_data st c = Some d" by blast
  define d1 where "d1 = d\<lparr>before := before d @ [st_i st]\<rparr>"
  have bp: "before_of (st_data st) c = before d" "parents_of (st_data st) c = parents d"
    using d by (simp_all add: before_of_def parents_of_def)
  show ?thesis
  proof (cases "length (before d1) = length (parents d1)")
    case True
    obtain bs where bs: "array_sort (\<lambda>a b. Inr (real b - real a)) (before d1) = Inr bs"
      "length bs = length (before d1)"
      using array_sort_numbers [of "before d1"] by blast
    define data' where "data' = (st_data st)(c \<mapsto> d1\<lparr>before := bs\<rparr>)"
    define st' where "st' = st\<lparr>st_data := data',
      st_queue := pq_add ops (cg_comp data') c (st_queue st)\<rparr>"
    have run: "cg_visit ops c st = Inr st'"
      using d True bs(1) by (simp add: cg_visit_def def_def d1_def st'_def data'_def Let_def)
    have dom': "dom data' = set N"
      using N d by (auto simp: data'_def)
    have par: "parents_of data' n = parents_of (st_data st) n" for n
      using d by (simp add: data'_def parents_of_def d1_def)
    have bef: "length (before_of data' n) =
        length (before_of (st_data st) n) + (if n = c then 1 else 0)" for n
      using d bs(2) by (simp add: data'_def before_of_def d1_def)
    have "\<not> ready P (st_data st) c"
      using room by (simp add: ready_def)
    moreover have "ready P data' c"
      using notP True bs(2) by (simp add: ready_def data'_def before_of_def parents_of_def d1_def)
    moreover have "\<forall>n. n \<noteq> c \<longrightarrow> ready P data' n = ready P (st_data st) n"
      by (simp add: ready_def data'_def before_of_def parents_of_def)
    ultimately have "mset (filter (ready P data') N) =
        add_mset c (mset (filter (ready P (st_data st)) N))"
      using N by (intro mset_filter_add) auto
    then have q: "contents (st_queue st') = mset (filter (ready P data') N)"
      using contract queue by (simp add: st'_def pq_contract_def)
    show ?thesis
      using run dom' par bef q by (intro exI [of _ st']) (simp add: st'_def)
  next
    case False
    define data' where "data' = (st_data st)(c \<mapsto> d1)"
    define st' where "st' = st\<lparr>st_data := data'\<rparr>"
    have run: "cg_visit ops c st = Inr st'"
      using d False by (simp add: cg_visit_def def_def d1_def st'_def data'_def Let_def)
    have dom': "dom data' = set N"
      using N d by (auto simp: data'_def)
    have par: "parents_of data' n = parents_of (st_data st) n" for n
      using d by (simp add: data'_def parents_of_def d1_def)
    have bef: "length (before_of data' n) =
        length (before_of (st_data st) n) + (if n = c then 1 else 0)" for n
      using d by (simp add: data'_def before_of_def d1_def)
    have "ready P data' n = ready P (st_data st) n" for n
      using room False bp by (auto simp: ready_def data'_def before_of_def parents_of_def d1_def)
    then have "filter (ready P data') N = filter (ready P (st_data st)) N"
      by (intro filter_cong) auto
    with queue have q: "contents (st_queue st') = mset (filter (ready P data') N)"
      by (simp add: st'_def)
    show ?thesis
      using run dom' par bef q by (intro exI [of _ st']) (simp add: st'_def)
  qed
qed

lemma cg_visit_all_spec:
  assumes contract: "pq_contract ops contents" and N: "distinct N"
  shows "dom (st_data st) = set N \<Longrightarrow> set cs \<subseteq> set N \<Longrightarrow>
     \<forall>n. length (before_of (st_data st) n) + count_list cs n \<le> length (parents_of (st_data st) n) \<Longrightarrow>
     contents (st_queue st) = mset (filter (ready P (st_data st)) N) \<Longrightarrow>
     \<forall>n \<in> set P. length (before_of (st_data st) n) = length (parents_of (st_data st) n) \<Longrightarrow>
     \<exists>st'. foldE (cg_visit ops) cs st = Inr st' \<and>
       dom (st_data st') = set N \<and>
       (\<forall>n. parents_of (st_data st') n = parents_of (st_data st) n) \<and>
       (\<forall>n. length (before_of (st_data st') n) = length (before_of (st_data st) n) + count_list cs n) \<and>
       contents (st_queue st') = mset (filter (ready P (st_data st')) N) \<and>
       node_layer st' = node_layer st \<and> st_i st' = st_i st \<and>
       st_layer st' = st_layer st \<and> st_width st' = st_width st"
proof (induction cs arbitrary: st)
  case Nil
  then show ?case by simp
next
  case (Cons c cs)
  from Cons.prems(3) have
    "length (before_of (st_data st) c) + count_list (c # cs) c \<le> length (parents_of (st_data st) c)"
    by blast
  then have room: "length (before_of (st_data st) c) < length (parents_of (st_data st) c)"
    by simp
  with Cons.prems(5) have notP: "c \<notin> set P" by auto
  from Cons.prems(2) have cN: "c \<in> set N" by simp
  from cg_visit_spec [OF contract N Cons.prems(1) cN room Cons.prems(4) notP]
  obtain st1 where 1: "cg_visit ops c st = Inr st1" "dom (st_data st1) = set N"
    "\<forall>n. parents_of (st_data st1) n = parents_of (st_data st) n"
    "\<forall>n. length (before_of (st_data st1) n) =
        length (before_of (st_data st) n) + (if n = c then 1 else 0)"
    "contents (st_queue st1) = mset (filter (ready P (st_data st1)) N)"
    "node_layer st1 = node_layer st" "st_i st1 = st_i st"
    "st_layer st1 = st_layer st" "st_width st1 = st_width st"
    by blast
  have a: "set cs \<subseteq> set N" using Cons.prems(2) by simp
  have b: "\<forall>n. length (before_of (st_data st1) n) + count_list cs n
      \<le> length (parents_of (st_data st1) n)"
  proof
    fix n
    from Cons.prems(3) have
      "length (before_of (st_data st) n) + count_list (c # cs) n \<le> length (parents_of (st_data st) n)"
      by blast
    with 1(3,4) show "length (before_of (st_data st1) n) + count_list cs n
      \<le> length (parents_of (st_data st1) n)"
      by (cases "n = c") simp_all
  qed
  have c: "\<forall>n \<in> set P. length (before_of (st_data st1) n) = length (parents_of (st_data st1) n)"
    using Cons.prems(5) 1(3,4) notP by auto
  from Cons.IH [OF 1(2) a b 1(5) c]
  obtain st2 where 2: "foldE (cg_visit ops) cs st1 = Inr st2" "dom (st_data st2) = set N"
    "\<forall>n. parents_of (st_data st2) n = parents_of (st_data st1) n"
    "\<forall>n. length (before_of (st_data st2) n) = length (before_of (st_data st1) n) + count_list cs n"
    "contents (st_queue st2) = mset (filter (ready P (st_data st2)) N)"
    "node_layer st2 = node_layer st1" "st_i st2 = st_i st1"
    "st_layer st2 = st_layer st1" "st_width st2 = st_width st1"
    by blast
  have "\<forall>n. length (before_of (st_data st2) n) =
      length (before_of (st_data st) n) + count_list (c # cs) n"
    using 1(4) 2(4) by simp
  with 1 2 show ?case by (intro exI [of _ st2]) simp
qed

lemma every_below_spec:
  "\<forall>p \<in> set ps. \<exists>l. layers p = Some l \<Longrightarrow>
   every_below layers layer ps = Inr (\<forall>p \<in> set ps. \<forall>l. layers p = Some l \<longrightarrow> l < layer)"
  by (induction ps) (auto simp: def_def)

lemma card_layer_insert:
  assumes "x \<notin> set P" and "\<forall>n \<in> set P. L' n = L n" and "L' x = Some k"
  shows "{n \<in> set (P @ [x]). L' n = Some l} =
     (if l = k then insert x {n \<in> set P. L n = Some l} else {n \<in> set P. L n = Some l})"
  using assms by auto

lemma cg_place_spec:
  assumes x: "x \<notin> set P" and d: "st_data st x = Some d" and par: "set (parents d) \<subseteq> set P"
    and w1: "1 \<le> maxWidth"
    and A: "\<forall>n \<in> set P. \<exists>l. node_layer st n = Some l \<and> l \<le> st_layer st"
    and W: "st_width st = int (card {n \<in> set P. node_layer st n = Some (st_layer st)})"
    and B: "\<forall>l. int (card {n \<in> set P. node_layer st n = Some l}) \<le> maxWidth"
  shows "\<exists>st1. cg_place (real_of_int maxWidth) x st = Inr st1 \<and>
     st_data st1 = st_data st \<and> st_queue st1 = st_queue st \<and> st_i st1 = st_i st \<and>
     (\<forall>n \<in> set P. node_layer st1 n = node_layer st n) \<and> st_layer st \<le> st_layer st1 \<and>
     (\<exists>l. node_layer st1 x = Some l \<and> l \<le> st_layer st1 \<and>
        (\<forall>p \<in> set (parents d). \<exists>lp. node_layer st p = Some lp \<and> lp < l)) \<and>
     st_width st1 = int (card {n \<in> set (P @ [x]). node_layer st1 n = Some (st_layer st1)}) \<and>
     (\<forall>l. int (card {n \<in> set (P @ [x]). node_layer st1 n = Some l}) \<le> maxWidth)"
proof -
  have defd: "\<forall>p \<in> set (parents d). \<exists>l. node_layer st p = Some l"
    using par A by blast
  define below where
    "below \<longleftrightarrow> (\<forall>p \<in> set (parents d). \<forall>l. node_layer st p = Some l \<longrightarrow> l < st_layer st)"
  have eb: "every_below (node_layer st) (st_layer st) (parents d) = Inr below"
    unfolding below_def by (rule every_below_spec [OF defd])
  have fin: "finite {n \<in> set P. node_layer st n = Some l}" for l by simp
  show ?thesis
  proof (cases "st_width st < maxWidth \<and> below")
    case True
    define st1 where "st1 = st\<lparr>node_layer := (node_layer st)(x \<mapsto> st_layer st),
                      st_width := st_width st + 1\<rparr>"
    have run: "cg_place (real_of_int maxWidth) x st = Inr st1"
      using True d eb by (simp add: cg_place_def def_def st1_def)
    have same: "\<forall>n \<in> set P. node_layer st1 n = node_layer st n"
      using x by (auto simp: st1_def)
    have lx: "node_layer st1 x = Some (st_layer st)"
      by (simp add: st1_def)
    have sets: "{n \<in> set (P @ [x]). node_layer st1 n = Some l} =
       (if l = st_layer st then insert x {n \<in> set P. node_layer st n = Some l}
        else {n \<in> set P. node_layer st n = Some l})" for l
      by (rule card_layer_insert [OF x same lx])
    have xin: "x \<notin> {n \<in> set P. node_layer st n = Some l}" for l
      using x by simp
    have cards: "int (card {n \<in> set (P @ [x]). node_layer st1 n = Some l}) =
       (if l = st_layer st then int (card {n \<in> set P. node_layer st n = Some l}) + 1
        else int (card {n \<in> set P. node_layer st n = Some l}))" for l
    proof (cases "l = st_layer st")
      case True
      have "card (insert x {n \<in> set P. node_layer st n = Some l}) =
          Suc (card {n \<in> set P. node_layer st n = Some l})"
        by (rule card_insert_disjoint [OF fin xin])
      with True show ?thesis by (simp only: sets if_True) simp
    next
      case False
      then show ?thesis by (simp only: sets if_False)
    qed
    have wd: "st_width st1 = int (card {n \<in> set (P @ [x]). node_layer st1 n = Some (st_layer st1)})"
      using W cards [of "st_layer st"] by (simp add: st1_def)
    have bd: "\<forall>l. int (card {n \<in> set (P @ [x]). node_layer st1 n = Some l}) \<le> maxWidth"
      using B True W cards by auto
    have px: "\<forall>p \<in> set (parents d). \<exists>lp. node_layer st p = Some lp \<and> lp < st_layer st"
      using True defd by (auto simp: below_def)
    show ?thesis
      using run same lx wd bd px by (intro exI [of _ st1]) (simp add: st1_def)
  next
    case False
    define st1 where "st1 = st\<lparr>node_layer := (node_layer st)(x \<mapsto> st_layer st + 1),
                      st_layer := st_layer st + 1, st_width := 1\<rparr>"
    have run: "cg_place (real_of_int maxWidth) x st = Inr st1"
      using False d eb by (auto simp: cg_place_def def_def st1_def)
    have same: "\<forall>n \<in> set P. node_layer st1 n = node_layer st n"
      using x by (auto simp: st1_def)
    have lx: "node_layer st1 x = Some (st_layer st + 1)"
      by (simp add: st1_def)
    have sets: "{n \<in> set (P @ [x]). node_layer st1 n = Some l} =
       (if l = st_layer st + 1 then insert x {n \<in> set P. node_layer st n = Some l}
        else {n \<in> set P. node_layer st n = Some l})" for l
      by (rule card_layer_insert [OF x same lx])
    have empty: "{n \<in> set P. node_layer st n = Some (st_layer st + 1)} = {}"
      using A by fastforce
    have c1: "int (card {n \<in> set (P @ [x]). node_layer st1 n = Some (st_layer st + 1)}) = 1"
      by (simp only: sets if_True empty) simp
    have c2: "l \<noteq> st_layer st + 1 \<Longrightarrow> int (card {n \<in> set (P @ [x]). node_layer st1 n = Some l}) =
        int (card {n \<in> set P. node_layer st n = Some l})" for l
      by (simp only: sets if_False)
    have wd: "st_width st1 = int (card {n \<in> set (P @ [x]). node_layer st1 n = Some (st_layer st1)})"
      using c1 by (simp add: st1_def)
    have bd: "\<forall>l. int (card {n \<in> set (P @ [x]). node_layer st1 n = Some l}) \<le> maxWidth"
    proof
      fix l
      show "int (card {n \<in> set (P @ [x]). node_layer st1 n = Some l}) \<le> maxWidth"
        using c1 c2 [of l] B w1 by (cases "l = st_layer st + 1") auto
    qed
    have px: "\<forall>p \<in> set (parents d). \<exists>lp. node_layer st p = Some lp \<and> lp < st_layer st + 1"
      using par A by fastforce
    show ?thesis
      using run same lx wd bd px by (intro exI [of _ st1]) (simp add: st1_def)
  qed
qed

lemma in_edges_sum: "distinct ps \<Longrightarrow> in_edges ch ps n = (\<Sum>p \<in> set ps. count_list (ch p) n)"
  by (simp add: in_edges_def sum_list_distinct_conv_sum_set)

lemma in_edges_room:
  assumes "distinct P" and "distinct N" and "set P \<subseteq> set N" and "p \<in> set N" and "p \<notin> set P"
  shows "in_edges ch P n + count_list (ch p) n \<le> in_edges ch N n"
proof -
  have "in_edges ch (p # P) n = (\<Sum>q \<in> set (p # P). count_list (ch q) n)"
    using assms by (intro in_edges_sum) simp
  also have "\<dots> \<le> (\<Sum>q \<in> set N. count_list (ch q) n)"
    using assms by (intro sum_mono2) auto
  also have "\<dots> = in_edges ch N n"
    using assms by (simp add: in_edges_sum)
  finally show ?thesis by (simp add: add.commute)
qed

lemma cg_step_spec:
  assumes contract: "pq_contract ops contents"
    and N: "distinct (idescendants dag)"
    and closed: "\<forall>n \<in> set (idescendants dag). set (ichildren dag n) \<subseteq> set (idescendants dag)"
    and w1: "1 \<le> maxWidth"
    and inv: "cg_inv contents dag maxWidth P st"
    and poll: "pq_poll ops cmp (st_queue st) = Some (x, q)"
  shows "\<exists>st'. cg_step ops (ichildren dag) (real_of_int maxWidth) x (st\<lparr>st_queue := q\<rparr>) = Inr st' \<and>
           cg_inv contents dag maxWidth (P @ [x]) st' \<and> x \<in> set (idescendants dag) \<and> x \<notin> set P"
proof -
  let ?N = "idescendants dag" and ?ch = "ichildren dag" and ?data = "st_data st"
  have
    P: "distinct P" "set P \<subseteq> set ?N" and
    dom: "dom ?data = set ?N" and
    par: "\<forall>n. parents_of ?data n = all_parents ?ch ?N n" and
    bef: "\<forall>n. length (before_of ?data n) = in_edges ?ch P n" and
    que: "contents (st_queue st) = mset (filter (ready P ?data) ?N)" and
    rdy: "\<forall>n \<in> set P. length (before_of ?data n) = length (parents_of ?data n)" and
    lay: "\<forall>n \<in> set P. \<exists>l. node_layer st n = Some l \<and> l \<le> st_layer st" and
    edg: "\<forall>n \<in> set P. \<forall>p \<in> set ?N. n \<in> set (?ch p) \<longrightarrow>
        p \<in> set P \<and> (\<exists>l l'. node_layer st p = Some l \<and> node_layer st n = Some l' \<and> l < l')" and
    wid: "st_width st = int (card {n \<in> set P. node_layer st n = Some (st_layer st)})" and
    bnd: "\<forall>l. int (card {n \<in> set P. node_layer st n = Some l}) \<le> maxWidth"
    using inv unfolding cg_inv_def by blast+
  from contract poll have split: "contents (st_queue st) = add_mset x (contents q)"
    by (simp add: pq_contract_def)
  with que have "x \<in># mset (filter (ready P ?data) ?N)"
    by (metis union_single_eq_member)
  then have xN: "x \<in> set ?N" and xr: "ready P ?data x"
    by simp_all
  from xr have xP: "x \<notin> set P" and xfull: "length (before_of ?data x) = length (parents_of ?data x)"
    by (simp_all add: ready_def)
  \<comment> \<open>the queue without \<open>x\<close>\<close>
  have "mset (filter (ready P ?data) ?N) = add_mset x (mset (filter (ready (P @ [x]) ?data) ?N))"
    using N xN xr by (intro mset_filter_add) (auto simp: ready_def)
  with que split have que': "contents q = mset (filter (ready (P @ [x]) ?data) ?N)"
    by simp
  \<comment> \<open>every parent of \<open>x\<close> has been placed\<close>
  have room: "in_edges ?ch P n + count_list (?ch x) n \<le> in_edges ?ch ?N n" for n
    by (rule in_edges_room [OF P(1) N P(2) xN xP])
  have parP: "p \<in> set P" if "p \<in> set ?N" "x \<in> set (?ch p)" for p
  proof (rule ccontr)
    assume "p \<notin> set P"
    from in_edges_room [OF P(1) N P(2) that(1) this, of ?ch x]
    have "in_edges ?ch P x + count_list (?ch p) x \<le> in_edges ?ch ?N x" .
    moreover have "0 < count_list (?ch p) x"
      using that(2) by (meson count_list_0_iff not_gr_zero)
    moreover have "in_edges ?ch P x = in_edges ?ch ?N x"
      using xfull bef par by (simp add: length_all_parents)
    ultimately show False by simp
  qed
  from xN dom obtain d where d: "?data x = Some d" by blast
  have pd: "parents d = all_parents ?ch ?N x"
    using par d by (auto simp: parents_of_def dest: spec [of _ x])
  have pdP: "set (parents d) \<subseteq> set P"
    using parP by (auto simp: pd set_all_parents)
  \<comment> \<open>placing \<open>x\<close>\<close>
  let ?st0 = "st\<lparr>st_queue := q\<rparr>"
  have "\<exists>st1. cg_place (real_of_int maxWidth) x ?st0 = Inr st1 \<and>
     st_data st1 = st_data ?st0 \<and> st_queue st1 = st_queue ?st0 \<and> st_i st1 = st_i ?st0 \<and>
     (\<forall>n \<in> set P. node_layer st1 n = node_layer ?st0 n) \<and> st_layer ?st0 \<le> st_layer st1 \<and>
     (\<exists>l. node_layer st1 x = Some l \<and> l \<le> st_layer st1 \<and>
        (\<forall>p \<in> set (parents d). \<exists>lp. node_layer ?st0 p = Some lp \<and> lp < l)) \<and>
     st_width st1 = int (card {n \<in> set (P @ [x]). node_layer st1 n = Some (st_layer st1)}) \<and>
     (\<forall>l. int (card {n \<in> set (P @ [x]). node_layer st1 n = Some l}) \<le> maxWidth)"
    using xP d pdP w1 lay wid bnd by (intro cg_place_spec) simp_all
  then obtain st1 lx where
    1: "cg_place (real_of_int maxWidth) x ?st0 = Inr st1" "st_data st1 = ?data" "st_queue st1 = q"
       "st_i st1 = st_i st" "\<forall>n \<in> set P. node_layer st1 n = node_layer st n"
       "st_layer st \<le> st_layer st1" and
    lx: "node_layer st1 x = Some lx" "lx \<le> st_layer st1"
       "\<forall>p \<in> set (parents d). \<exists>lp. node_layer st p = Some lp \<and> lp < lx" and
    w: "st_width st1 = int (card {n \<in> set (P @ [x]). node_layer st1 n = Some (st_layer st1)})"
       "\<forall>l. int (card {n \<in> set (P @ [x]). node_layer st1 n = Some l}) \<le> maxWidth"
    by auto
  \<comment> \<open>visiting the children of \<open>x\<close>\<close>
  have c1: "dom (st_data st1) = set ?N" using dom 1(2) by simp
  have c2: "set (?ch x) \<subseteq> set ?N" using closed xN by blast
  have c3: "\<forall>n. length (before_of (st_data st1) n) + count_list (?ch x) n
      \<le> length (parents_of (st_data st1) n)"
    using room bef par by (simp add: 1(2) length_all_parents)
  have c4: "contents (st_queue st1) = mset (filter (ready (P @ [x]) (st_data st1)) ?N)"
    using que' by (simp add: 1(2,3))
  have c5: "\<forall>n \<in> set (P @ [x]). length (before_of (st_data st1) n) = length (parents_of (st_data st1) n)"
    using rdy xfull by (simp add: 1(2))
  from cg_visit_all_spec [OF contract N c1 c2 c3 c4 c5]
  obtain st2 where
    2: "foldE (cg_visit ops) (?ch x) st1 = Inr st2" "dom (st_data st2) = set ?N"
       "\<forall>n. parents_of (st_data st2) n = parents_of (st_data st1) n"
       "\<forall>n. length (before_of (st_data st2) n) = length (before_of (st_data st1) n) + count_list (?ch x) n"
       "contents (st_queue st2) = mset (filter (ready (P @ [x]) (st_data st2)) ?N)"
       "node_layer st2 = node_layer st1" "st_i st2 = st_i st1"
       "st_layer st2 = st_layer st1" "st_width st2 = st_width st1"
    by blast
  define st' where "st' = st2\<lparr>st_i := st_i st2 + 1\<rparr>"
  have run: "cg_step ops ?ch (real_of_int maxWidth) x ?st0 = Inr st'"
    using 1(1) 2(1) by (simp add: cg_step_def st'_def)
  \<comment> \<open>the invariant for \<open>P @ [x]\<close>\<close>
  have i1: "distinct (P @ [x])" "set (P @ [x]) \<subseteq> set ?N"
    using P xP xN by simp_all
  have i4: "\<forall>n. parents_of (st_data st') n = all_parents ?ch ?N n"
    using par 2(3) by (simp add: st'_def 1(2))
  have i5: "\<forall>n. length (before_of (st_data st') n) = in_edges ?ch (P @ [x]) n"
    using bef 2(4) by (simp add: st'_def 1(2))
  have i6: "contents (st_queue st') = mset (filter (ready (P @ [x]) (st_data st')) ?N)"
    using 2(5) by (simp add: st'_def)
  have zero: "count_list (?ch x) n = 0" if "n \<in> set (P @ [x])" for n
  proof -
    from that c5 have "length (before_of (st_data st1) n) = length (parents_of (st_data st1) n)"
      by blast
    with c3 show ?thesis by (metis add_le_same_cancel1 le_zero_eq)
  qed
  have i7: "\<forall>n \<in> set (P @ [x]). length (before_of (st_data st') n) = length (parents_of (st_data st') n)"
  proof
    fix n assume n: "n \<in> set (P @ [x])"
    with c5 have "length (before_of (st_data st1) n) = length (parents_of (st_data st1) n)"
      by blast
    with zero [OF n] 2(3,4) show "length (before_of (st_data st') n) = length (parents_of (st_data st') n)"
      by (simp add: st'_def)
  qed
  have i8: "\<forall>n \<in> set (P @ [x]). \<exists>l. node_layer st' n = Some l \<and> l \<le> st_layer st'"
  proof
    fix n assume "n \<in> set (P @ [x])"
    then consider "n = x" | "n \<in> set P" by auto
    then show "\<exists>l. node_layer st' n = Some l \<and> l \<le> st_layer st'"
    proof cases
      case 1
      with lx show ?thesis by (simp add: st'_def 2)
    next
      case 2
      with lay obtain l where "node_layer st n = Some l" "l \<le> st_layer st" by blast
      with 2 1(5,6) show ?thesis by (simp add: st'_def \<open>node_layer st2 = node_layer st1\<close> \<open>st_layer st2 = st_layer st1\<close>)
    qed
  qed
  have i9: "\<forall>n \<in> set (P @ [x]). \<forall>p \<in> set ?N. n \<in> set (?ch p) \<longrightarrow>
        p \<in> set (P @ [x]) \<and>
        (\<exists>l l'. node_layer st' p = Some l \<and> node_layer st' n = Some l' \<and> l < l')"
  proof (intro ballI impI)
    fix n p assume n: "n \<in> set (P @ [x])" and p: "p \<in> set ?N" and e: "n \<in> set (?ch p)"
    have nl: "node_layer st' = node_layer st1" by (simp add: st'_def 2)
    from n consider "n = x" | "n \<in> set P" by auto
    then show "p \<in> set (P @ [x]) \<and>
        (\<exists>l l'. node_layer st' p = Some l \<and> node_layer st' n = Some l' \<and> l < l')"
    proof cases
      case 1
      with p e have pP: "p \<in> set P" using parP by simp
      from 1 p e have "p \<in> set (parents d)" by (simp add: pd set_all_parents)
      with lx(3) obtain lp where "node_layer st p = Some lp" "lp < lx" by blast
      with pP 1 lx(1) \<open>\<forall>n \<in> set P. node_layer st1 n = node_layer st n\<close> show ?thesis
        by (simp add: nl)
    next
      case 2
      with edg p e obtain l l' where pP: "p \<in> set P" and
        "node_layer st p = Some l" "node_layer st n = Some l'" "l < l'"
        by blast
      with 2 \<open>\<forall>n \<in> set P. node_layer st1 n = node_layer st n\<close> show ?thesis
        by (simp add: nl)
    qed
  qed
  have i10: "st_width st' = int (card {n \<in> set (P @ [x]). node_layer st' n = Some (st_layer st')})"
    using w(1) by (simp add: st'_def 2)
  have i11: "\<forall>l. int (card {n \<in> set (P @ [x]). node_layer st' n = Some l}) \<le> maxWidth"
    using w(2) by (simp add: st'_def 2)
  have "cg_inv contents dag maxWidth (P @ [x]) st'"
    unfolding cg_inv_def
    using i1 i4 i5 i6 i7 i8 i9 i10 i11 2(2) by (simp add: st'_def)
  with run xN xP show ?thesis by blast
qed

lemma cg_loop_spec:
  assumes contract: "pq_contract ops contents"
    and N: "distinct (idescendants dag)"
    and closed: "\<forall>n \<in> set (idescendants dag). set (ichildren dag n) \<subseteq> set (idescendants dag)"
    and w1: "idescendants dag \<noteq> [] \<longrightarrow> 1 \<le> maxWidth"
  shows "cg_inv contents dag maxWidth P st \<Longrightarrow>
     \<exists>st' P'. cg_loop ops (ichildren dag) (real_of_int maxWidth) st = Some (Inr st') \<and>
       cg_inv contents dag maxWidth P' st' \<and> contents (st_queue st') = {#}"
proof (induction "length (idescendants dag) - length P" arbitrary: P st)
  case 0
  show ?case
  proof (cases "pq_poll ops (cg_comp (st_data st)) (st_queue st)")
    case None
    with contract have "contents (st_queue st) = {#}"
      by (simp add: pq_contract_def)
    moreover from None have "cg_loop ops (ichildren dag) (real_of_int maxWidth) st = Some (Inr st)"
      by (subst cg_loop.simps) simp
    ultimately show ?thesis using "0.prems" by blast
  next
    case (Some xq)
    obtain x q where xq: "xq = (x, q)" by (cases xq)
    from Some xq contract have "contents (st_queue st) = add_mset x (contents q)"
      by (simp add: pq_contract_def)
    moreover from "0.prems" have
      "contents (st_queue st) = mset (filter (ready P (st_data st)) (idescendants dag))"
      and dP: "distinct P" "set P \<subseteq> set (idescendants dag)"
      unfolding cg_inv_def by blast+
    ultimately have "x \<in># mset (filter (ready P (st_data st)) (idescendants dag))"
      by (metis union_single_eq_member)
    then have "x \<in> set (idescendants dag)" "x \<notin> set P"
      by (simp_all add: ready_def)
    with dP have "card (set P) < card (set (idescendants dag))"
      by (intro psubset_card_mono) auto
    with dP N have "length P < length (idescendants dag)"
      by (simp add: distinct_card)
    with "0.hyps" show ?thesis by simp
  qed
next
  case (Suc k)
  show ?case
  proof (cases "pq_poll ops (cg_comp (st_data st)) (st_queue st)")
    case None
    with contract have "contents (st_queue st) = {#}"
      by (simp add: pq_contract_def)
    moreover from None have "cg_loop ops (ichildren dag) (real_of_int maxWidth) st = Some (Inr st)"
      by (subst cg_loop.simps) simp
    ultimately show ?thesis using Suc.prems by blast
  next
    case (Some xq)
    obtain x q where xq: "xq = (x, q)" by (cases xq)
    with Some have poll: "pq_poll ops (cg_comp (st_data st)) (st_queue st) = Some (x, q)"
      by simp
    from Suc.hyps(2) have "idescendants dag \<noteq> []" by auto
    with w1 have w: "1 \<le> maxWidth" by simp
    from cg_step_spec [OF contract N closed w Suc.prems poll]
    obtain st1 where
      1: "cg_step ops (ichildren dag) (real_of_int maxWidth) x (st\<lparr>st_queue := q\<rparr>) = Inr st1"
         "cg_inv contents dag maxWidth (P @ [x]) st1"
      by blast
    from Suc.hyps(2) have "k = length (idescendants dag) - length (P @ [x])"
      by simp
    from Suc.hyps(1) [OF this 1(2)] obtain st' P' where
      2: "cg_loop ops (ichildren dag) (real_of_int maxWidth) st1 = Some (Inr st')"
         "cg_inv contents dag maxWidth P' st'" "contents (st_queue st') = {#}"
      by blast
    from poll 1(1) 2(1) have "cg_loop ops (ichildren dag) (real_of_int maxWidth) st = Some (Inr st')"
      by (subst cg_loop.simps) simp
    with 2 show ?thesis by blast
  qed
qed

lemma cg_all_placed:
  assumes N: "distinct (idescendants dag)"
    and rank: "\<forall>n \<in> set (idescendants dag). \<forall>c \<in> set (ichildren dag n). rank n < (rank c :: nat)"
    and inv: "cg_inv contents dag maxWidth P st"
    and empty: "contents (st_queue st) = {#}"
  shows "set P = set (idescendants dag)"
proof (rule ccontr)
  let ?N = "idescendants dag" and ?ch = "ichildren dag"
  assume ne: "set P \<noteq> set ?N"
  have P: "distinct P" "set P \<subseteq> set ?N"
    and par: "\<forall>n. parents_of (st_data st) n = all_parents ?ch ?N n"
    and bef: "\<forall>n. length (before_of (st_data st) n) = in_edges ?ch P n"
    and que: "contents (st_queue st) = mset (filter (ready P (st_data st)) ?N)"
    using inv unfolding cg_inv_def by blast+
  from ne P(2) obtain m where "m \<in> set ?N \<and> m \<notin> set P" by blast
  from ex_has_least_nat [of "\<lambda>n. n \<in> set ?N \<and> n \<notin> set P" m rank, OF this]
  obtain n where n: "n \<in> set ?N" "n \<notin> set P"
    and least: "\<forall>y. y \<in> set ?N \<and> y \<notin> set P \<longrightarrow> rank n \<le> rank y"
    by blast
  have zero: "count_list (?ch p) n = 0" if "p \<in> set ?N - set P" for p
  proof (rule ccontr)
    assume "count_list (?ch p) n \<noteq> 0"
    then have "n \<in> set (?ch p)" by (simp add: count_list_0_iff)
    with rank that have "rank p < rank n" by blast
    moreover from least that have "rank n \<le> rank p" by blast
    ultimately show False by simp
  qed
  have "in_edges ?ch P n = (\<Sum>p \<in> set P. count_list (?ch p) n)"
    using P(1) by (rule in_edges_sum)
  also have "\<dots> = (\<Sum>p \<in> set ?N. count_list (?ch p) n)"
    using P(2) zero by (intro sum.mono_neutral_left) auto
  also have "\<dots> = in_edges ?ch ?N n"
    using N by (simp add: in_edges_sum)
  finally have "ready P (st_data st) n"
    using n bef par by (simp add: ready_def length_all_parents)
  with n have "n \<in> set (filter (ready P (st_data st)) ?N)" by simp
  then have "n \<in># mset (filter (ready P (st_data st)) ?N)"
    by (simp only: set_mset_mset)
  with que empty show False by simp
qed

lemma contents_fold_add:
  "pq_contract ops contents \<Longrightarrow> contents (fold (pq_add ops cmp) xs q) = mset xs + contents q"
  by (induction xs arbitrary: q) (simp_all add: pq_contract_def)

lemma cg_inv_initial:
  assumes contract: "pq_contract ops contents" and wf: "wf_dag dag" and w0: "0 \<le> maxWidth"
    and data: "dom data = set (idescendants dag)" "\<forall>n. before_of data n = []"
      "\<forall>n. parents_of data n = all_parents (ichildren dag) (idescendants dag) n"
  shows "cg_inv contents dag maxWidth []
     \<lparr>st_queue = fold (pq_add ops (cg_comp data)) (iroots dag) (pq_new ops),
      st_data = data, node_layer = layers0, st_i = 0, st_layer = 0, st_width = 0\<rparr>"
proof -
  let ?N = "idescendants dag" and ?ch = "ichildren dag"
  from wf have N: "distinct ?N" and R: "distinct (iroots dag)"
    and roots: "set (iroots dag) = {n \<in> set ?N. \<forall>p \<in> set ?N. n \<notin> set (?ch p)}"
    unfolding wf_dag_def by blast+
  have "ready [] data n \<longleftrightarrow> (\<forall>p \<in> set ?N. n \<notin> set (?ch p))" for n
  proof -
    have "ready [] data n \<longleftrightarrow> all_parents ?ch ?N n = []"
      using data(2,3) by (auto simp: ready_def)
    also have "\<dots> \<longleftrightarrow> set (all_parents ?ch ?N n) = {}" by simp
    also have "\<dots> \<longleftrightarrow> (\<forall>p \<in> set ?N. n \<notin> set (?ch p))"
      by (auto simp: set_all_parents)
    finally show ?thesis .
  qed
  then have s: "set (iroots dag) = set (filter (ready [] data) ?N)"
    using roots by auto
  have d: "distinct (filter (ready [] data) ?N)"
    using N by simp
  from set_eq_iff_mset_eq_distinct [OF R d] s
  have "mset (iroots dag) = mset (filter (ready [] data) ?N)"
    by blast
  moreover have "contents (fold (pq_add ops (cg_comp data)) (iroots dag) (pq_new ops)) = mset (iroots dag)"
    using contract by (simp add: contents_fold_add) (simp add: pq_contract_def)
  ultimately show ?thesis
    using data w0 by (simp add: cg_inv_def)
qed

lemma cg_maxWidth_integer:
  assumes "0 \<le> width options" and "width options \<in> \<int>"
  shows "\<exists>m. cg_maxWidth options n = real_of_int m \<and> 0 \<le> m \<and> (0 < n \<longrightarrow> 1 \<le> m)"
proof (cases "width options = 0")
  case True
  have "1 \<le> \<lfloor>sqrt (real n + 1 / 2)\<rfloor>" if "0 < n"
  proof -
    from that have "1 \<le> real n + 1 / 2" by simp
    then have "1 \<le> sqrt (real n + 1 / 2)" by simp
    then show ?thesis by simp
  qed
  moreover have "0 \<le> \<lfloor>sqrt (real n + 1 / 2)\<rfloor>" by simp
  ultimately show ?thesis
    using True by (auto simp: cg_maxWidth_def)
next
  case False
  from assms(2) obtain k where k: "width options = real_of_int k" by (rule Ints_cases)
  with assms(1) False have "1 \<le> k" by simp
  with k False show ?thesis
    by (auto simp: cg_maxWidth_def)
qed

lemma floor_sqrt_le_round: "\<lfloor>sqrt (real n + 1 / 2)\<rfloor> \<le> round (sqrt (real n))"
proof -
  define r where "r = floor_sqrt_from 0 n"
  have "r * r \<le> n"
    using floor_sqrt_from_bounds [of 0 n] by (simp add: r_def)
  then have "real (r * r) \<le> real n" by (simp only: of_nat_le_iff)
  then have "(real r)\<^sup>2 \<le> real n" by (simp add: power2_eq_square)
  then have "real r \<le> sqrt (real n)" by (rule real_le_rsqrt)
  then have "real_of_int (int r) \<le> sqrt (real n) + 1 / 2" by simp
  then have "int r \<le> \<lfloor>sqrt (real n) + 1 / 2\<rfloor>" by (simp only: le_floor_iff)
  then show ?thesis
    by (simp add: floor_sqrt_half r_def round_def)
qed

text \<open>
  C2: for every well-formed DAG, every queue that honours its contract, every configured
  width that is an integer and not negative, and whatever the \<open>layer\<close> attributes held
  before, the call returns without an error; then every node has a layer (a natural number),
  the layer of the source of every edge is strictly less than the layer of its target, and
  no layer holds more nodes than the configured width when that is positive; for the
  configured width 0 no layer holds more than \<open>floor (sqrt (n + 1 / 2))\<close> nodes, \<open>n\<close> the
  number of nodes, which is at most the square root of \<open>n\<close> rounded to the nearest integer.
\<close>

theorem coffmanGraham_layering:
  assumes contract: "pq_contract ops contents" and wf: "wf_dag dag"
    and w: "0 \<le> width options" and wi: "width options \<in> \<int>"
  shows "\<exists>st. coffmanGrahamCall ops options dag layers0 = Some (Inr st) \<and>
     (\<forall>n \<in> set (idescendants dag). \<exists>l. node_layer st n = Some l) \<and>
     (\<forall>n \<in> set (idescendants dag). \<forall>c \<in> set (ichildren dag n).
        \<exists>l l'. node_layer st n = Some l \<and> node_layer st c = Some l' \<and> l < l') \<and>
     (\<forall>l. (0 < width options \<longrightarrow>
             real (card {n \<in> set (idescendants dag). node_layer st n = Some l}) \<le> width options) \<and>
          (width options = 0 \<longrightarrow>
             int (card {n \<in> set (idescendants dag). node_layer st n = Some l})
               \<le> \<lfloor>sqrt (real (length (idescendants dag)) + 1 / 2)\<rfloor> \<and>
             int (card {n \<in> set (idescendants dag). node_layer st n = Some l})
               \<le> round (sqrt (real (length (idescendants dag))))))"
proof -
  let ?N = "idescendants dag" and ?ch = "ichildren dag"
  from cg_maxWidth_integer [OF w wi, of "length ?N"] obtain mw where
    mw: "cg_maxWidth options (length ?N) = real_of_int mw" "0 \<le> mw" "0 < length ?N \<longrightarrow> 1 \<le> mw"
    by blast
  from wf have N: "distinct ?N"
    and closed: "\<forall>n \<in> set ?N. set (?ch n) \<subseteq> set ?N"
    unfolding wf_dag_def by blast+
  from wf obtain rank :: "node \<Rightarrow> nat" where
    rank: "\<forall>n \<in> set ?N. \<forall>c \<in> set (?ch n). rank n < rank c"
    unfolding wf_dag_def by blast
  from init_data_spec [OF closed] obtain data where
    data: "init_data dag = Inr data" "dom data = set ?N" "\<forall>n. before_of data n = []"
      "\<forall>n. parents_of data n = all_parents ?ch ?N n"
    by blast
  define st0 where "st0 =
     \<lparr>st_queue = fold (pq_add ops (cg_comp data)) (iroots dag) (pq_new ops),
      st_data = data, node_layer = layers0, st_i = 0, st_layer = 0, st_width = 0\<rparr>"
  have inv0: "cg_inv contents dag mw [] st0"
    unfolding st0_def
    by (rule cg_inv_initial [OF contract wf mw(2) data(2,3,4)])
  have w1: "?N \<noteq> [] \<longrightarrow> 1 \<le> mw"
    using mw(3) by simp
  from cg_loop_spec [OF contract N closed w1 inv0] obtain st P where
    run: "cg_loop ops ?ch (real_of_int mw) st0 = Some (Inr st)"
    and inv: "cg_inv contents dag mw P st" and empty: "contents (st_queue st) = {#}"
    by blast
  have all: "set P = set ?N"
    by (rule cg_all_placed [OF N rank inv empty])
  have lay: "\<forall>n \<in> set P. \<exists>l. node_layer st n = Some l \<and> l \<le> st_layer st"
    and edg: "\<forall>n \<in> set P. \<forall>p \<in> set ?N. n \<in> set (?ch p) \<longrightarrow>
        p \<in> set P \<and> (\<exists>l l'. node_layer st p = Some l \<and> node_layer st n = Some l' \<and> l < l')"
    and bnd: "\<forall>l. int (card {n \<in> set P. node_layer st n = Some l}) \<le> mw"
    using inv unfolding cg_inv_def by blast+
  have "coffmanGrahamCall ops options dag layers0 = Some (Inr st)"
    using data(1) run mw(1) by (simp add: coffmanGrahamCall_def st0_def)
  moreover have "\<forall>n \<in> set ?N. \<exists>l. node_layer st n = Some l"
    using lay all by blast
  moreover have "\<forall>n \<in> set ?N. \<forall>c \<in> set (?ch n).
        \<exists>l l'. node_layer st n = Some l \<and> node_layer st c = Some l' \<and> l < l'"
    using edg all closed by blast
  moreover have "(0 < width options \<longrightarrow>
             real (card {n \<in> set ?N. node_layer st n = Some l}) \<le> width options) \<and>
          (width options = 0 \<longrightarrow>
             int (card {n \<in> set ?N. node_layer st n = Some l})
               \<le> \<lfloor>sqrt (real (length ?N) + 1 / 2)\<rfloor> \<and>
             int (card {n \<in> set ?N. node_layer st n = Some l})
               \<le> round (sqrt (real (length ?N))))" for l
  proof -
    from bnd all have b: "int (card {n \<in> set ?N. node_layer st n = Some l}) \<le> mw" by simp
    show ?thesis
    proof (intro conjI impI)
      assume "0 < width options"
      with mw(1) have "width options = real_of_int mw" by (simp add: cg_maxWidth_def)
      moreover from b have
        "real_of_int (int (card {n \<in> set ?N. node_layer st n = Some l})) \<le> real_of_int mw"
        by (simp only: of_int_le_iff)
      ultimately show "real (card {n \<in> set ?N. node_layer st n = Some l}) \<le> width options"
        by simp
    next
      assume "width options = 0"
      with mw(1) have m: "mw = \<lfloor>sqrt (real (length ?N) + 1 / 2)\<rfloor>"
        by (simp add: cg_maxWidth_def)
      with b show "int (card {n \<in> set ?N. node_layer st n = Some l})
          \<le> \<lfloor>sqrt (real (length ?N) + 1 / 2)\<rfloor>"
        by simp
      with floor_sqrt_le_round [of "length ?N"]
      show "int (card {n \<in> set ?N. node_layer st n = Some l}) \<le> round (sqrt (real (length ?N)))"
        by linarith
    qed
  qed
  ultimately show ?thesis by blast
qed

lemma list_queue_contract: "pq_contract list_queue mset"
proof -
  have a: "list_poll cmp q = None \<longleftrightarrow> mset q = {#}" for cmp q
    by (simp add: list_poll_def Let_def)
  have b: "mset q = add_mset x (mset q')" if "list_poll cmp q = Some (x, q')" for cmp q x q'
  proof -
    define least where "least = filter (\<lambda>a. \<forall>b \<in> set q. cmp a b = Inr True) q"
    from that have q: "q \<noteq> []" by (auto simp: list_poll_def)
    have "hd least \<in> set q" if "least \<noteq> []"
    proof -
      from that have "hd least \<in> set least" by simp
      then show ?thesis by (simp add: least_def)
    qed
    with q have "(if least = [] then hd q else hd least) \<in> set q" by simp
    moreover from \<open>list_poll cmp q = Some (x, q')\<close> q
    have "x = (if least = [] then hd q else hd least)" "q' = remove1 x q"
      by (auto simp: list_poll_def Let_def least_def)
    ultimately show ?thesis by simp
  qed
  show ?thesis
    unfolding pq_contract_def using a b by (simp add: list_queue_def)
qed

lemma wf_square: "wf_dag square"
proof -
  have "\<exists>rank :: node \<Rightarrow> nat.
      \<forall>n \<in> set (idescendants square). \<forall>c \<in> set (ichildren square n). rank n < rank c"
    by (rule exI [where x = "\<lambda>n. n"]) (simp add: square_def)
  moreover have "set (iroots square) =
       {n \<in> set (idescendants square). \<forall>p \<in> set (idescendants square). n \<notin> set (ichildren square p)}"
    by (auto simp: square_def)
  ultimately show ?thesis
    unfolding wf_dag_def by (simp add: square_def)
qed

lemma square_run:
  "map_option (map_sum id (\<lambda>st. map (node_layer st) [0, 1, 2, 3]))
     (coffmanGrahamCall list_queue \<lparr>width = 0\<rparr> square Map.empty) =
   Some (Inr [Some 0, Some 1, Some 1, Some 2])"
  by code_simp

lemma square_run_one:
  "map_option (map_sum id (\<lambda>st. map (node_layer st) [0, 1, 2, 3]))
     (coffmanGrahamCall list_queue \<lparr>width = 1\<rparr> square Map.empty) =
   Some (Inr [Some 0, Some 1, Some 2, Some 3])"
  by code_simp

text \<open>
  The DAG of the four nodes with the edges 0 -> 1, 0 -> 2, 1 -> 3 and 2 -> 3: with the width
  0 the layers are [[0], [1, 2], [3]], with the width 1 every node has a layer of its own.
\<close>

theorem coffmanGraham_layering_witness:
  "pq_contract list_queue mset \<and> wf_dag square \<and>
   0 \<le> width \<lparr>width = 0\<rparr> \<and> width \<lparr>width = 0\<rparr> \<in> \<int> \<and>
   (\<exists>st. coffmanGrahamCall list_queue \<lparr>width = 0\<rparr> square Map.empty = Some (Inr st) \<and>
      map (node_layer st) [0, 1, 2, 3] = [Some 0, Some 1, Some 1, Some 2] \<and>
      (\<forall>n \<in> set (idescendants square). \<exists>l. node_layer st n = Some l) \<and>
      (\<forall>n \<in> set (idescendants square). \<forall>c \<in> set (ichildren square n).
         \<exists>l l'. node_layer st n = Some l \<and> node_layer st c = Some l' \<and> l < l') \<and>
      (\<forall>l. int (card {n \<in> set (idescendants square). node_layer st n = Some l}) \<le> 2)) \<and>
   0 < width \<lparr>width = 1\<rparr> \<and> width \<lparr>width = 1\<rparr> \<in> \<int> \<and>
   (\<exists>st. coffmanGrahamCall list_queue \<lparr>width = 1\<rparr> square Map.empty = Some (Inr st) \<and>
      map (node_layer st) [0, 1, 2, 3] = [Some 0, Some 1, Some 2, Some 3] \<and>
      (\<forall>l. card {n \<in> set (idescendants square). node_layer st n = Some l} \<le> 1))"
proof -
  have w: "0 \<le> width \<lparr>width = 0\<rparr>" "width \<lparr>width = 0\<rparr> \<in> \<int>" by simp_all
  have w': "0 \<le> width \<lparr>width = 1\<rparr>" "0 < width \<lparr>width = 1\<rparr>" "width \<lparr>width = 1\<rparr> \<in> \<int>"
    by simp_all
  have r: "round (sqrt (real (length (idescendants square)))) = 2"
    by (simp add: square_def)
  from coffmanGraham_layering [OF list_queue_contract wf_square w, of Map.empty]
  obtain st where st: "coffmanGrahamCall list_queue \<lparr>width = 0\<rparr> square Map.empty = Some (Inr st)"
    "\<forall>n \<in> set (idescendants square). \<exists>l. node_layer st n = Some l"
    "\<forall>n \<in> set (idescendants square). \<forall>c \<in> set (ichildren square n).
         \<exists>l l'. node_layer st n = Some l \<and> node_layer st c = Some l' \<and> l < l'"
    "\<forall>l. int (card {n \<in> set (idescendants square). node_layer st n = Some l})
         \<le> round (sqrt (real (length (idescendants square))))"
    by auto
  from square_run st(1) have m: "map (node_layer st) [0, 1, 2, 3] = [Some 0, Some 1, Some 1, Some 2]"
    by simp
  from st(4) r have b: "\<forall>l. int (card {n \<in> set (idescendants square). node_layer st n = Some l}) \<le> 2"
    by simp
  from coffmanGraham_layering [OF list_queue_contract wf_square w'(1,3), of Map.empty]
  obtain st' where st': "coffmanGrahamCall list_queue \<lparr>width = 1\<rparr> square Map.empty = Some (Inr st')"
    "\<forall>l. real (card {n \<in> set (idescendants square). node_layer st' n = Some l}) \<le> 1"
    by auto
  from square_run_one st'(1)
  have m': "map (node_layer st') [0, 1, 2, 3] = [Some 0, Some 1, Some 2, Some 3]"
    by simp
  from st'(2) have b': "\<forall>l. card {n \<in> set (idescendants square). node_layer st' n = Some l} \<le> 1"
    by simp
  show ?thesis
    by (intro conjI exI [of _ st] exI [of _ st'])
      (rule list_queue_contract wf_square w w' st(1,2,3) m b st'(1) m' b')+
qed

section \<open>The optimal decrossing operator does not always minimise\<close>

lemma bug_build:
  "case build_model bug_children bug_layers of
     (Inr model, layers) \<Rightarrow>
       layers = bug_layers \<and> lp_table model = bug_table \<and>
       lp_row_coefs model (optimize model) =
         map (\<lambda>v. (v, 0)) bug_pairs @ map (\<lambda>(sign, pairp, pairc). (slack_name pairp pairc, 1)) bug_slacks \<and>
       map fst (variables model) =
         bug_pairs @ map (\<lambda>(sign, pairp, pairc). slack_name pairp pairc) bug_slacks \<and>
       map fst (ints model) = bug_pairs
   | (Inl e, layers) \<Rightarrow> False"
  by code_simp

lemma lp_cases:
  fixes p01 p02 p12 c01 c02 c03 c12 c13 c23 :: real
    and s1 s2 s3 s4 s5 s6 s7 s8 s9 s10 s11 :: real
  assumes bits: "p01 = 0 \<or> p01 = 1" "p02 = 0 \<or> p02 = 1" "p12 = 0 \<or> p12 = 1"
      "c01 = 0 \<or> c01 = 1" "c02 = 0 \<or> c02 = 1" "c03 = 0 \<or> c03 = 1"
      "c12 = 0 \<or> c12 = 1" "c13 = 0 \<or> c13 = 1" "c23 = 0 \<or> c23 = 1"
    and tri: "p01 - p02 + p12 \<le> 1" "0 \<le> p01 - p02 + p12"
      "c01 - c02 + c12 \<le> 1" "0 \<le> c01 - c02 + c12"
      "c01 - c03 + c13 \<le> 1" "0 \<le> c01 - c03 + c13"
      "c02 - c03 + c23 \<le> 1" "0 \<le> c02 - c03 + c23"
      "c12 - c13 + c23 \<le> 1" "0 \<le> c12 - c13 + c23"
    and slack:
      "0 \<le> p01 - c01 + s1" "0 \<le> - p01 + c01 + s1"
      "0 \<le> p01 - c02 + s2" "0 \<le> - p01 + c02 + s2"
      "0 \<le> p02 - c01 + s3" "0 \<le> - p02 + c01 + s3"
      "0 \<le> p02 - c02 + s4" "0 \<le> - p02 + c02 + s4"
      "0 \<le> p02 - c03 + s5" "0 \<le> - p02 + c03 + s5"
      "1 \<le> p12 + c01 + s6" "- 1 \<le> - p12 - c01 + s6"
      "1 \<le> p12 + c02 + s7" "- 1 \<le> - p12 - c02 + s7"
      "0 \<le> p12 - c03 + s8" "0 \<le> - p12 + c03 + s8"
      "1 \<le> p12 + c12 + s9" "- 1 \<le> - p12 - c12 + s9"
      "0 \<le> p12 - c13 + s10" "0 \<le> - p12 + c13 + s10"
      "0 \<le> p12 - c23 + s11" "0 \<le> - p12 + c23 + s11"
    and nonneg: "0 \<le> s1" "0 \<le> s2" "0 \<le> s3" "0 \<le> s4" "0 \<le> s5" "0 \<le> s6"
      "0 \<le> s7" "0 \<le> s8" "0 \<le> s9" "0 \<le> s10" "0 \<le> s11"
    and obj: "s1 + s2 + s3 + s4 + s5 + s6 + s7 + s8 + s9 + s10 + s11 \<le> 1"
  shows "(p01 = 1 \<and> p02 = 1 \<and> p12 = 0 \<and> c01 = 1 \<and> c02 = 1 \<and> c12 = 1 \<and> c13 = 0 \<and> c23 = 0) \<or>
         (p01 = 0 \<and> p02 = 0 \<and> p12 = 1 \<and> c01 = 0 \<and> c02 = 0 \<and> c12 = 0 \<and> c13 = 1 \<and> c23 = 1)"
proof -
  have sumA: "s1 + s2 + s6 + s7 \<le> 1" and sumB: "s3 + s5 + s8 + s9 \<le> 1"
    and sumC: "s8 + s10 \<le> 1" and sumD: "s8 + s11 \<le> 1"
    and sumE: "s3 + s4 \<le> 1" and sumF: "s1 + s2 \<le> 1"
    using nonneg obj by linarith+
  note sA = slack(1-4,11-14) nonneg(1,2,6,7) sumA
  note sB = slack(5,6,9,10,15-18) nonneg(3,5,8,9) sumB
  note sC = slack(15,16,19,20) nonneg(8,10) sumC
  note sD = slack(15,16,21,22) nonneg(8,11) sumD
  note sE = slack(5-8) nonneg(3,4) sumE
  note sF = slack(1-4) nonneg(1,2) sumF
  from bits(3) show ?thesis
  proof
    assume p12: "p12 = 0"
    have c01: "c01 = 1" using bits(4) p12 sA by (elim disjE; linarith)
    have c02: "c02 = 1" using bits(5) p12 sA by (elim disjE; linarith)
    have c12: "c12 = 1" using bits(7) p12 c01 sB by (elim disjE; linarith)
    have c13: "c13 = 0" using bits(8) p12 c01 tri(5) sC by (elim disjE; linarith)
    have c23: "c23 = 0" using bits(9) p12 c02 tri(7) sD by (elim disjE; linarith)
    have p02: "p02 = 1" using bits(2) c01 c02 sE by (elim disjE; linarith)
    have p01: "p01 = 1" using bits(1) p12 p02 tri(2) by (elim disjE; linarith)
    from p12 c01 c02 c12 c13 c23 p01 p02 show ?thesis by simp
  next
    assume p12: "p12 = 1"
    have c01: "c01 = 0" using bits(4) p12 sA by (elim disjE; linarith)
    have c02: "c02 = 0" using bits(5) p12 sA by (elim disjE; linarith)
    have c12: "c12 = 0" using bits(7) p12 c01 sB by (elim disjE; linarith)
    have c13: "c13 = 1" using bits(8) p12 c01 tri(6) sC by (elim disjE; linarith)
    have c23: "c23 = 1" using bits(9) p12 c02 tri(8) sD by (elim disjE; linarith)
    have p01: "p01 = 0" using bits(1) c01 c02 sF by (elim disjE; linarith)
    have p02: "p02 = 0" using bits(2) c01 c02 sE by (elim disjE; linarith)
    from p12 c01 c02 c12 c13 c23 p01 p02 show ?thesis by simp
  qed
qed

lemma lp_row_coefs_sum:
  "(\<Sum>(v, coefs) \<leftarrow> vs. (case map_of coefs attr of None \<Rightarrow> 0 | Some k \<Rightarrow> k * lp_value x v)) =
   (\<Sum>(v, k) \<leftarrow> concat (map (\<lambda>(v, coefs). case map_of coefs attr of None \<Rightarrow> [] | Some k \<Rightarrow> [(v, k)]) vs).
      k * lp_value x v)"
  by (induction vs) (auto split: option.splits)

lemma lp_row_table: "lp_row model x attr = (\<Sum>(v, k) \<leftarrow> lp_row_coefs model attr. k * lp_value x v)"
  unfolding lp_row_def lp_row_coefs_def by (rule lp_row_coefs_sum)

lemma lp_feasible_table:
  "lp_feasible model x \<longleftrightarrow>
     list_all (\<lambda>(b, row). lp_within b (\<Sum>(v, k) \<leftarrow> row. k * lp_value x v)) (lp_table model) \<and>
     list_all (\<lambda>v. 0 \<le> lp_value x v) (map fst (variables model)) \<and>
     list_all (\<lambda>v. lp_value x v \<in> \<int>) (map fst (ints model))"
  by (simp add: lp_feasible_def lp_table_def lp_row_table list_all_iff split_def)

lemma lp_objective_table:
  "lp_objective model x = (\<Sum>(v, k) \<leftarrow> lp_row_coefs model (optimize model). k * lp_value x v)"
  by (simp add: lp_objective_def lp_row_table)

lemma bug_model_lp:
  "\<exists>model. build_model bug_children bug_layers = (Inr model, bug_layers) \<and>
     (\<forall>x. lp_feasible model x \<longleftrightarrow> bug_feasible (lp_value x)) \<and>
     (\<forall>x. lp_objective model x = bug_objective (lp_value x))"
proof -
  obtain r layers where b: "build_model bug_children bug_layers = (r, layers)"
    by (cases "build_model bug_children bug_layers")
  with bug_build obtain model where m: "r = Inr model"
    by (cases r) auto
  from bug_build b m have
    l: "layers = bug_layers" and t: "lp_table model = bug_table" and
    o: "lp_row_coefs model (optimize model) =
         map (\<lambda>v. (v, 0)) bug_pairs @ map (\<lambda>(sign, pairp, pairc). (slack_name pairp pairc, 1)) bug_slacks" and
    v: "map fst (variables model) =
         bug_pairs @ map (\<lambda>(sign, pairp, pairc). slack_name pairp pairc) bug_slacks" and
    i: "map fst (ints model) = bug_pairs"
    by simp_all
  have f: "lp_feasible model x \<longleftrightarrow> bug_feasible (lp_value x)" for x
    by (simp only: lp_feasible_table t v i bug_feasible_def)
  have "lp_objective model x = bug_objective (lp_value x)" for x
    by (simp add: lp_objective_table o bug_objective_def split_def comp_def)
  with b m l f show ?thesis by blast
qed

lemma bit_cases: "x \<in> \<int> \<Longrightarrow> 0 \<le> x \<Longrightarrow> x \<le> 1 \<Longrightarrow> x = 0 \<or> x = (1::real)"
proof -
  assume "x \<in> \<int>" and b: "0 \<le> x" "x \<le> 1"
  then obtain i :: int where i: "x = of_int i" by (auto elim: Ints_cases)
  with b have "i = 0 \<or> i = 1" by auto
  with i show ?thesis by auto
qed

lemma list_all_nthD: "list_all P xs \<Longrightarrow> k < length xs \<Longrightarrow> P (xs ! k)"
  by (simp add: list_all_length)

lemma bug_feasible_cases:
  assumes f: "bug_feasible val" and o: "bug_objective val \<le> 1"
  shows "(val (pair_name 0 0 1) = 1 \<and> val (pair_name 0 0 2) = 1 \<and> val (pair_name 0 1 2) = 0 \<and>
          val (pair_name 1 0 1) = 1 \<and> val (pair_name 1 0 2) = 1 \<and> val (pair_name 1 1 2) = 1 \<and>
          val (pair_name 1 1 3) = 0 \<and> val (pair_name 1 2 3) = 0) \<or>
         (val (pair_name 0 0 1) = 0 \<and> val (pair_name 0 0 2) = 0 \<and> val (pair_name 0 1 2) = 1 \<and>
          val (pair_name 1 0 1) = 0 \<and> val (pair_name 1 0 2) = 0 \<and> val (pair_name 1 1 2) = 0 \<and>
          val (pair_name 1 1 3) = 1 \<and> val (pair_name 1 2 3) = 1)"
    and "val (pair_name 1 0 3) = 0 \<or> val (pair_name 1 0 3) = 1"
    and "1 \<le> bug_objective val"
proof -
  define p01 where "p01 = val (pair_name 0 0 1)"
  define p02 where "p02 = val (pair_name 0 0 2)"
  define p12 where "p12 = val (pair_name 0 1 2)"
  define c01 where "c01 = val (pair_name 1 0 1)"
  define c02 where "c02 = val (pair_name 1 0 2)"
  define c03 where "c03 = val (pair_name 1 0 3)"
  define c12 where "c12 = val (pair_name 1 1 2)"
  define c13 where "c13 = val (pair_name 1 1 3)"
  define c23 where "c23 = val (pair_name 1 2 3)"
  define s_p01_c01 where "s_p01_c01 = val (slack_name (pair_name 0 0 1) (pair_name 1 0 1))"
  define s_p01_c02 where "s_p01_c02 = val (slack_name (pair_name 0 0 1) (pair_name 1 0 2))"
  define s_p02_c01 where "s_p02_c01 = val (slack_name (pair_name 0 0 2) (pair_name 1 0 1))"
  define s_p02_c02 where "s_p02_c02 = val (slack_name (pair_name 0 0 2) (pair_name 1 0 2))"
  define s_p02_c03 where "s_p02_c03 = val (slack_name (pair_name 0 0 2) (pair_name 1 0 3))"
  define s_p12_c01 where "s_p12_c01 = val (slack_name (pair_name 0 1 2) (pair_name 1 0 1))"
  define s_p12_c02 where "s_p12_c02 = val (slack_name (pair_name 0 1 2) (pair_name 1 0 2))"
  define s_p12_c03 where "s_p12_c03 = val (slack_name (pair_name 0 1 2) (pair_name 1 0 3))"
  define s_p12_c12 where "s_p12_c12 = val (slack_name (pair_name 0 1 2) (pair_name 1 1 2))"
  define s_p12_c13 where "s_p12_c13 = val (slack_name (pair_name 0 1 2) (pair_name 1 1 3))"
  define s_p12_c23 where "s_p12_c23 = val (slack_name (pair_name 0 1 2) (pair_name 1 2 3))"
  note names = p01_def p02_def p12_def c01_def c02_def c03_def c12_def c13_def c23_def s_p01_c01_def s_p01_c02_def s_p02_c01_def s_p02_c02_def s_p02_c03_def s_p12_c01_def s_p12_c02_def s_p12_c03_def s_p12_c12_def s_p12_c13_def s_p12_c23_def
  note defs = bug_table_def bug_pairs_def bug_slacks_def pair_row_def triangle_rows_def
    slack_rows_def lp_within_def
  have rows: "list_all (\<lambda>(b, row). lp_within b (\<Sum>(v, k) \<leftarrow> row. k * val v)) bug_table"
    and nonneg: "list_all (\<lambda>v. 0 \<le> val v)
      (bug_pairs @ map (\<lambda>(sign, pairp, pairc). slack_name pairp pairc) bug_slacks)"
    and ints: "list_all (\<lambda>v. val v \<in> \<int>) bug_pairs"
    using f by (simp_all only: bug_feasible_def)
  have hi1: "p01 \<le> 1"
    using rows [THEN list_all_nthD, of 0] by (simp add: defs names)
  have hi2: "p02 \<le> 1"
    using rows [THEN list_all_nthD, of 1] by (simp add: defs names)
  have hi3: "p12 \<le> 1"
    using rows [THEN list_all_nthD, of 2] by (simp add: defs names)
  have hi4: "c01 \<le> 1"
    using rows [THEN list_all_nthD, of 5] by (simp add: defs names)
  have hi5: "c02 \<le> 1"
    using rows [THEN list_all_nthD, of 6] by (simp add: defs names)
  have hi6: "c03 \<le> 1"
    using rows [THEN list_all_nthD, of 7] by (simp add: defs names)
  have hi7: "c12 \<le> 1"
    using rows [THEN list_all_nthD, of 8] by (simp add: defs names)
  have hi8: "c13 \<le> 1"
    using rows [THEN list_all_nthD, of 9] by (simp add: defs names)
  have hi9: "c23 \<le> 1"
    using rows [THEN list_all_nthD, of 10] by (simp add: defs names)
  have tri1: "p01 - p02 + p12 \<le> 1"
    using rows [THEN list_all_nthD, of 3] by (simp add: defs names)
  have tri2: "0 \<le> p01 - p02 + p12"
    using rows [THEN list_all_nthD, of 4] by (simp add: defs names)
  have tri3: "c01 - c02 + c12 \<le> 1"
    using rows [THEN list_all_nthD, of 11] by (simp add: defs names)
  have tri4: "0 \<le> c01 - c02 + c12"
    using rows [THEN list_all_nthD, of 12] by (simp add: defs names)
  have tri5: "c01 - c03 + c13 \<le> 1"
    using rows [THEN list_all_nthD, of 13] by (simp add: defs names)
  have tri6: "0 \<le> c01 - c03 + c13"
    using rows [THEN list_all_nthD, of 14] by (simp add: defs names)
  have tri7: "c02 - c03 + c23 \<le> 1"
    using rows [THEN list_all_nthD, of 15] by (simp add: defs names)
  have tri8: "0 \<le> c02 - c03 + c23"
    using rows [THEN list_all_nthD, of 16] by (simp add: defs names)
  have tri9: "c12 - c13 + c23 \<le> 1"
    using rows [THEN list_all_nthD, of 17] by (simp add: defs names)
  have tri10: "0 \<le> c12 - c13 + c23"
    using rows [THEN list_all_nthD, of 18] by (simp add: defs names)
  have slack1: "0 \<le> p01 - c01 + s_p01_c01"
    using rows [THEN list_all_nthD, of 19] by (simp add: defs names)
  have slack2: "0 \<le> - p01 + c01 + s_p01_c01"
    using rows [THEN list_all_nthD, of 20] by (simp add: defs names)
  have slack3: "0 \<le> p01 - c02 + s_p01_c02"
    using rows [THEN list_all_nthD, of 21] by (simp add: defs names)
  have slack4: "0 \<le> - p01 + c02 + s_p01_c02"
    using rows [THEN list_all_nthD, of 22] by (simp add: defs names)
  have slack5: "0 \<le> p02 - c01 + s_p02_c01"
    using rows [THEN list_all_nthD, of 23] by (simp add: defs names)
  have slack6: "0 \<le> - p02 + c01 + s_p02_c01"
    using rows [THEN list_all_nthD, of 24] by (simp add: defs names)
  have slack7: "0 \<le> p02 - c02 + s_p02_c02"
    using rows [THEN list_all_nthD, of 25] by (simp add: defs names)
  have slack8: "0 \<le> - p02 + c02 + s_p02_c02"
    using rows [THEN list_all_nthD, of 26] by (simp add: defs names)
  have slack9: "0 \<le> p02 - c03 + s_p02_c03"
    using rows [THEN list_all_nthD, of 27] by (simp add: defs names)
  have slack10: "0 \<le> - p02 + c03 + s_p02_c03"
    using rows [THEN list_all_nthD, of 28] by (simp add: defs names)
  have slack11: "1 \<le> p12 + c01 + s_p12_c01"
    using rows [THEN list_all_nthD, of 29] by (simp add: defs names)
  have slack12: "- 1 \<le> - p12 - c01 + s_p12_c01"
    using rows [THEN list_all_nthD, of 30] by (simp add: defs names)
  have slack13: "1 \<le> p12 + c02 + s_p12_c02"
    using rows [THEN list_all_nthD, of 31] by (simp add: defs names)
  have slack14: "- 1 \<le> - p12 - c02 + s_p12_c02"
    using rows [THEN list_all_nthD, of 32] by (simp add: defs names)
  have slack15: "0 \<le> p12 - c03 + s_p12_c03"
    using rows [THEN list_all_nthD, of 33] by (simp add: defs names)
  have slack16: "0 \<le> - p12 + c03 + s_p12_c03"
    using rows [THEN list_all_nthD, of 34] by (simp add: defs names)
  have slack17: "1 \<le> p12 + c12 + s_p12_c12"
    using rows [THEN list_all_nthD, of 35] by (simp add: defs names)
  have slack18: "- 1 \<le> - p12 - c12 + s_p12_c12"
    using rows [THEN list_all_nthD, of 36] by (simp add: defs names)
  have slack19: "0 \<le> p12 - c13 + s_p12_c13"
    using rows [THEN list_all_nthD, of 37] by (simp add: defs names)
  have slack20: "0 \<le> - p12 + c13 + s_p12_c13"
    using rows [THEN list_all_nthD, of 38] by (simp add: defs names)
  have slack21: "0 \<le> p12 - c23 + s_p12_c23"
    using rows [THEN list_all_nthD, of 39] by (simp add: defs names)
  have slack22: "0 \<le> - p12 + c23 + s_p12_c23"
    using rows [THEN list_all_nthD, of 40] by (simp add: defs names)
  have lo1: "0 \<le> p01"
    using nonneg [THEN list_all_nthD, of 0] by (simp add: defs names)
  have lo2: "0 \<le> p02"
    using nonneg [THEN list_all_nthD, of 1] by (simp add: defs names)
  have lo3: "0 \<le> p12"
    using nonneg [THEN list_all_nthD, of 2] by (simp add: defs names)
  have lo4: "0 \<le> c01"
    using nonneg [THEN list_all_nthD, of 3] by (simp add: defs names)
  have lo5: "0 \<le> c02"
    using nonneg [THEN list_all_nthD, of 4] by (simp add: defs names)
  have lo6: "0 \<le> c03"
    using nonneg [THEN list_all_nthD, of 5] by (simp add: defs names)
  have lo7: "0 \<le> c12"
    using nonneg [THEN list_all_nthD, of 6] by (simp add: defs names)
  have lo8: "0 \<le> c13"
    using nonneg [THEN list_all_nthD, of 7] by (simp add: defs names)
  have lo9: "0 \<le> c23"
    using nonneg [THEN list_all_nthD, of 8] by (simp add: defs names)
  have nn1: "0 \<le> s_p01_c01"
    using nonneg [THEN list_all_nthD, of 9] by (simp add: defs names)
  have nn2: "0 \<le> s_p01_c02"
    using nonneg [THEN list_all_nthD, of 10] by (simp add: defs names)
  have nn3: "0 \<le> s_p02_c01"
    using nonneg [THEN list_all_nthD, of 11] by (simp add: defs names)
  have nn4: "0 \<le> s_p02_c02"
    using nonneg [THEN list_all_nthD, of 12] by (simp add: defs names)
  have nn5: "0 \<le> s_p02_c03"
    using nonneg [THEN list_all_nthD, of 13] by (simp add: defs names)
  have nn6: "0 \<le> s_p12_c01"
    using nonneg [THEN list_all_nthD, of 14] by (simp add: defs names)
  have nn7: "0 \<le> s_p12_c02"
    using nonneg [THEN list_all_nthD, of 15] by (simp add: defs names)
  have nn8: "0 \<le> s_p12_c03"
    using nonneg [THEN list_all_nthD, of 16] by (simp add: defs names)
  have nn9: "0 \<le> s_p12_c12"
    using nonneg [THEN list_all_nthD, of 17] by (simp add: defs names)
  have nn10: "0 \<le> s_p12_c13"
    using nonneg [THEN list_all_nthD, of 18] by (simp add: defs names)
  have nn11: "0 \<le> s_p12_c23"
    using nonneg [THEN list_all_nthD, of 19] by (simp add: defs names)
  have int1: "p01 \<in> \<int>"
    using ints [THEN list_all_nthD, of 0] by (simp add: defs names)
  have int2: "p02 \<in> \<int>"
    using ints [THEN list_all_nthD, of 1] by (simp add: defs names)
  have int3: "p12 \<in> \<int>"
    using ints [THEN list_all_nthD, of 2] by (simp add: defs names)
  have int4: "c01 \<in> \<int>"
    using ints [THEN list_all_nthD, of 3] by (simp add: defs names)
  have int5: "c02 \<in> \<int>"
    using ints [THEN list_all_nthD, of 4] by (simp add: defs names)
  have int6: "c03 \<in> \<int>"
    using ints [THEN list_all_nthD, of 5] by (simp add: defs names)
  have int7: "c12 \<in> \<int>"
    using ints [THEN list_all_nthD, of 6] by (simp add: defs names)
  have int8: "c13 \<in> \<int>"
    using ints [THEN list_all_nthD, of 7] by (simp add: defs names)
  have int9: "c23 \<in> \<int>"
    using ints [THEN list_all_nthD, of 8] by (simp add: defs names)
  have bit1: "p01 = 0 \<or> p01 = 1"
    by (rule bit_cases [OF int1 lo1 hi1])
  have bit2: "p02 = 0 \<or> p02 = 1"
    by (rule bit_cases [OF int2 lo2 hi2])
  have bit3: "p12 = 0 \<or> p12 = 1"
    by (rule bit_cases [OF int3 lo3 hi3])
  have bit4: "c01 = 0 \<or> c01 = 1"
    by (rule bit_cases [OF int4 lo4 hi4])
  have bit5: "c02 = 0 \<or> c02 = 1"
    by (rule bit_cases [OF int5 lo5 hi5])
  have bit6: "c03 = 0 \<or> c03 = 1"
    by (rule bit_cases [OF int6 lo6 hi6])
  have bit7: "c12 = 0 \<or> c12 = 1"
    by (rule bit_cases [OF int7 lo7 hi7])
  have bit8: "c13 = 0 \<or> c13 = 1"
    by (rule bit_cases [OF int8 lo8 hi8])
  have bit9: "c23 = 0 \<or> c23 = 1"
    by (rule bit_cases [OF int9 lo9 hi9])
  have obj: "s_p01_c01 + s_p01_c02 + s_p02_c01 + s_p02_c02 + s_p02_c03 + s_p12_c01 + s_p12_c02 + s_p12_c03 + s_p12_c12 + s_p12_c13 + s_p12_c23 \<le> 1"
    using o by (simp add: bug_objective_def bug_slacks_def names)
  have main: "(p01 = 1 \<and> p02 = 1 \<and> p12 = 0 \<and> c01 = 1 \<and> c02 = 1 \<and> c12 = 1 \<and> c13 = 0 \<and> c23 = 0) \<or>
         (p01 = 0 \<and> p02 = 0 \<and> p12 = 1 \<and> c01 = 0 \<and> c02 = 0 \<and> c12 = 0 \<and> c13 = 1 \<and> c23 = 1)"
    by (rule lp_cases [OF bit1 bit2 bit3 bit4 bit5 bit6 bit7 bit8 bit9 tri1 tri2 tri3 tri4 tri5 tri6 tri7 tri8 tri9 tri10 slack1 slack2 slack3 slack4 slack5 slack6 slack7 slack8 slack9 slack10 slack11 slack12 slack13 slack14 slack15 slack16 slack17 slack18 slack19 slack20 slack21 slack22 nn1 nn2 nn3 nn4 nn5 nn6 nn7 nn8 nn9 nn10 nn11 obj])
  then show "(val (pair_name 0 0 1) = 1 \<and> val (pair_name 0 0 2) = 1 \<and> val (pair_name 0 1 2) = 0 \<and>
          val (pair_name 1 0 1) = 1 \<and> val (pair_name 1 0 2) = 1 \<and> val (pair_name 1 1 2) = 1 \<and>
          val (pair_name 1 1 3) = 0 \<and> val (pair_name 1 2 3) = 0) \<or>
         (val (pair_name 0 0 1) = 0 \<and> val (pair_name 0 0 2) = 0 \<and> val (pair_name 0 1 2) = 1 \<and>
          val (pair_name 1 0 1) = 0 \<and> val (pair_name 1 0 2) = 0 \<and> val (pair_name 1 1 2) = 0 \<and>
          val (pair_name 1 1 3) = 1 \<and> val (pair_name 1 2 3) = 1)"
    unfolding names .
  show "val (pair_name 1 0 3) = 0 \<or> val (pair_name 1 0 3) = 1"
    using bit6 unfolding names .
  have "1 \<le> s_p01_c01 + s_p01_c02 + s_p02_c01 + s_p02_c02 + s_p02_c03 + s_p12_c01 + s_p12_c02 + s_p12_c03 + s_p12_c12 + s_p12_c13 + s_p12_c23"
    using main bit6 slack9 slack10 slack15 slack16 nn1 nn2 nn3 nn4 nn5 nn6 nn7 nn8 nn9 nn10 nn11
    by (elim disjE conjE; simp; linarith)
  then show "1 \<le> bug_objective val"
    by (simp add: bug_objective_def bug_slacks_def names)
qed

lemma pair_names:
  "pair_name 0 0 1 = ''(0 0) => (0 1)''" "pair_name 0 0 2 = ''(0 0) => (0 2)''"
  "pair_name 0 1 2 = ''(0 1) => (0 2)''" "pair_name 1 0 1 = ''(1 0) => (1 1)''"
  "pair_name 1 0 2 = ''(1 0) => (1 2)''" "pair_name 1 0 3 = ''(1 0) => (1 3)''"
  "pair_name 1 1 2 = ''(1 1) => (1 2)''" "pair_name 1 1 3 = ''(1 1) => (1 3)''"
  "pair_name 1 2 3 = ''(1 2) => (1 3)''"
  by (simp_all add: pair_name_def mk_id_def number_toString.simps digit_def)

lemma final_cmp_lp_value:
  "final_cmp ids solution n1 n2 =
     bindE (opt_comp ids n1 n2) (\<lambda>c.
     bindE (key ids [n1, n2]) (\<lambda>k.
       Inr (real_of_int c * (if lp_value solution k = 0 then - 1 else lp_value solution k))))"
proof -
  have "(case solution k of None \<Rightarrow> - 1 | Some v \<Rightarrow> (if v = 0 then - 1 else v)) =
      (if lp_value solution k = 0 then - 1 else lp_value solution k)" for k
    by (simp add: lp_value_def split: option.splits)
  then show ?thesis by (simp add: final_cmp_def)
qed

lemma bug_ids:
  "ids_layers 0 bug_layers Map.empty =
     [0 \<mapsto> ''(0 0)'', 1 \<mapsto> ''(0 1)'', 2 \<mapsto> ''(0 2)'',
      3 \<mapsto> ''(1 0)'', 4 \<mapsto> ''(1 1)'', 5 \<mapsto> ''(1 2)'', 6 \<mapsto> ''(1 3)'']"
  by (simp add: bug_layers_def mk_id_def number_toString.simps digit_def)

lemma bug_sorted:
  assumes "(lp_value x (pair_name 0 0 1) = 1 \<and> lp_value x (pair_name 0 0 2) = 1 \<and> lp_value x (pair_name 0 1 2) = 0 \<and>
          lp_value x (pair_name 1 0 1) = 1 \<and> lp_value x (pair_name 1 0 2) = 1 \<and> lp_value x (pair_name 1 1 2) = 1 \<and>
          lp_value x (pair_name 1 1 3) = 0 \<and> lp_value x (pair_name 1 2 3) = 0) \<or>
         (lp_value x (pair_name 0 0 1) = 0 \<and> lp_value x (pair_name 0 0 2) = 0 \<and> lp_value x (pair_name 0 1 2) = 1 \<and>
          lp_value x (pair_name 1 0 1) = 0 \<and> lp_value x (pair_name 1 0 2) = 0 \<and> lp_value x (pair_name 1 1 2) = 0 \<and>
          lp_value x (pair_name 1 1 3) = 1 \<and> lp_value x (pair_name 1 2 3) = 1)"
    and "lp_value x (pair_name 1 0 3) = 0 \<or> lp_value x (pair_name 1 0 3) = 1"
  shows "sort_layers (ids_layers 0 bug_layers Map.empty) x bug_layers \<in>
     {(None, [[0, 2, 1], [3, 6, 4, 5]]), (None, [[0, 2, 1], [6, 3, 4, 5]]),
      (None, [[1, 2, 0], [5, 4, 3, 6]]), (None, [[1, 2, 0], [5, 4, 6, 3]])}"
  using assms unfolding bug_ids pair_names
  by (elim disjE conjE)
    (simp_all add: bug_layers_def array_sort_def final_cmp_lp_value opt_comp_def key_def def_def)

lemma bug_crossings:
  "crossings bug_children bug_layers = 3"
  "crossings bug_children [[0, 2, 1], [3, 6, 4, 5]] = 4"
  "crossings bug_children [[0, 2, 1], [6, 3, 4, 5]] = 4"
  "crossings bug_children [[1, 2, 0], [5, 4, 3, 6]] = 4"
  "crossings bug_children [[1, 2, 0], [5, 4, 6, 3]] = 4"
  by (simp_all add: bug_layers_def bug_children_def edges_between_def inverted_def)

lemma bug_solution_values:
  "map (lp_value bug_solution) bug_pairs = [1, 1, 0, 1, 1, 1, 1, 0, 0]"
  "map (\<lambda>(sign, pairp, pairc). lp_value bug_solution (slack_name pairp pairc)) bug_slacks =
     [0, 0, 0, 0, 0, 0, 0, 1, 0, 0, 0]"
  by code_simp+

lemma bug_solution_ok:
  "bug_feasible (lp_value bug_solution)" "bug_objective (lp_value bug_solution) = 1"
proof -
  have v: "lp_value bug_solution (pair_name 0 0 1) = 1" "lp_value bug_solution (pair_name 0 0 2) = 1"
    "lp_value bug_solution (pair_name 0 1 2) = 0" "lp_value bug_solution (pair_name 1 0 1) = 1"
    "lp_value bug_solution (pair_name 1 0 2) = 1" "lp_value bug_solution (pair_name 1 0 3) = 1"
    "lp_value bug_solution (pair_name 1 1 2) = 1" "lp_value bug_solution (pair_name 1 1 3) = 0"
    "lp_value bug_solution (pair_name 1 2 3) = 0"
    using bug_solution_values(1) by (simp_all add: bug_pairs_def)
  have s: "lp_value bug_solution (slack_name (pair_name 0 0 1) (pair_name 1 0 1)) = 0"
    "lp_value bug_solution (slack_name (pair_name 0 0 1) (pair_name 1 0 2)) = 0"
    "lp_value bug_solution (slack_name (pair_name 0 0 2) (pair_name 1 0 1)) = 0"
    "lp_value bug_solution (slack_name (pair_name 0 0 2) (pair_name 1 0 2)) = 0"
    "lp_value bug_solution (slack_name (pair_name 0 0 2) (pair_name 1 0 3)) = 0"
    "lp_value bug_solution (slack_name (pair_name 0 1 2) (pair_name 1 0 1)) = 0"
    "lp_value bug_solution (slack_name (pair_name 0 1 2) (pair_name 1 0 2)) = 0"
    "lp_value bug_solution (slack_name (pair_name 0 1 2) (pair_name 1 0 3)) = 1"
    "lp_value bug_solution (slack_name (pair_name 0 1 2) (pair_name 1 1 2)) = 0"
    "lp_value bug_solution (slack_name (pair_name 0 1 2) (pair_name 1 1 3)) = 0"
    "lp_value bug_solution (slack_name (pair_name 0 1 2) (pair_name 1 2 3)) = 0"
    using bug_solution_values(2) by (simp_all add: bug_slacks_def)
  show "bug_feasible (lp_value bug_solution)"
    by (simp add: bug_feasible_def bug_table_def bug_pairs_def bug_slacks_def pair_row_def
        triangle_rows_def slack_rows_def lp_within_def v [unfolded One_nat_def] s [unfolded One_nat_def])
  show "bug_objective (lp_value bug_solution) = 1"
    by (simp add: bug_objective_def bug_slacks_def s [unfolded One_nat_def])
qed

text \<open>
  C1 fails on the layering above.  Nodes 1 and 2 both have the children 3 and 4, so
  \<open>cross\<close> builds the slack variable of the pairs (1, 2) and (3, 4) twice under one name,
  once for the edges 1 -> 3 and 2 -> 4 and once for the edges 1 -> 4 and 2 -> 3; the
  second write replaces the constraints of the first (likewise for the children 3, 5
  and 4, 5).  Exactly one of the two pairs of edges crosses in every order, but the model
  charges only for the second.  Whenever the solver returns an optimal solution of the
  model that \<open>optCall\<close> hands it, the call returns without an error and the layers it
  leaves have 4 crossings, while the layers as given have 3.
\<close>

theorem optCall_misses_minimum:
  assumes "solver_optimal_for Solve bug_children bug_layers"
  shows "\<exists>layers'. optCall \<lparr>clowntown = False\<rparr> Solve bug_children bug_layers = (None, layers') \<and>
     crossings bug_children layers' = 4 \<and> crossings bug_children bug_layers = 3"
proof -
  from bug_model_lp obtain model where
    b: "build_model bug_children bug_layers = (Inr model, bug_layers)"
    and f: "\<And>x. lp_feasible model x \<longleftrightarrow> bug_feasible (lp_value x)"
    and o: "\<And>x. lp_objective model x = bug_objective (lp_value x)"
    by blast
  let ?x = "Solve model"
  from assms b have opt: "lp_optimal model ?x"
    by (simp add: solver_optimal_for_def)
  then have feas: "bug_feasible (lp_value ?x)"
    by (simp add: lp_optimal_def f)
  from opt bug_solution_ok(1) have "lp_objective model ?x \<le> lp_objective model bug_solution"
    by (simp add: lp_optimal_def f)
  then have obj: "bug_objective (lp_value ?x) \<le> 1"
    by (simp add: o bug_solution_ok(2))
  have "sort_layers (ids_layers 0 bug_layers Map.empty) ?x bug_layers \<in>
     {(None, [[0, 2, 1], [3, 6, 4, 5]]), (None, [[0, 2, 1], [6, 3, 4, 5]]),
      (None, [[1, 2, 0], [5, 4, 3, 6]]), (None, [[1, 2, 0], [5, 4, 6, 3]])}"
    by (rule bug_sorted [OF bug_feasible_cases(1,2) [OF feas obj]])
  moreover have "optCall \<lparr>clowntown = False\<rparr> Solve bug_children bug_layers =
      sort_layers (ids_layers 0 bug_layers Map.empty) ?x bug_layers"
    by (simp add: optCall_def b) (simp add: bug_layers_def)
  ultimately show ?thesis
    using bug_crossings by auto
qed

theorem optCall_misses_minimum_witness:
  "solver_optimal_for (\<lambda>model. bug_solution) bug_children bug_layers \<and>
   (\<exists>layers'. optCall \<lparr>clowntown = False\<rparr> (\<lambda>model. bug_solution) bug_children bug_layers = (None, layers') \<and>
      crossings bug_children layers' = 4 \<and> crossings bug_children bug_layers = 3)"
proof -
  from bug_model_lp obtain model where
    b: "build_model bug_children bug_layers = (Inr model, bug_layers)"
    and f: "\<And>x. lp_feasible model x \<longleftrightarrow> bug_feasible (lp_value x)"
    and o: "\<And>x. lp_objective model x = bug_objective (lp_value x)"
    by blast
  have "lp_objective model bug_solution \<le> lp_objective model other" if "lp_feasible model other" for other
  proof (cases "bug_objective (lp_value other) \<le> 1")
    case True
    from that have "bug_feasible (lp_value other)" by (simp add: f)
    from bug_feasible_cases(3) [OF this True] show ?thesis
      by (simp add: o bug_solution_ok(2))
  next
    case False
    then show ?thesis by (simp add: o bug_solution_ok(2))
  qed
  then have "lp_optimal model bug_solution"
    using bug_solution_ok(1) by (simp add: lp_optimal_def f)
  with b have h: "solver_optimal_for (\<lambda>model. bug_solution) bug_children bug_layers"
    by (auto simp: solver_optimal_for_def)
  from h optCall_misses_minimum [OF h] show ?thesis by blast
qed

end
